theory Spec2Isabelle
  imports Complex_Main "HOL-Library.Sublist"
begin

section \<open>Python values shared by the models\<close>

text \<open>
  The exceptions the modelled functions of \<^verbatim>\<open>data_handling.py\<close> and
  \<^verbatim>\<open>main.py\<close> can raise. A function that can raise returns
  \<open>py_error + 'a\<close>, with \<open>Inl\<close> for the exception.
\<close>

datatype py_error =
    AttributeError
  | AssertionError string
  | KeyboardInterrupt string
  | NameError string
  | EOFError
  | ValueError
  | IndexError
  | ZeroDivisionError
  | KeyError
  | OSError

text \<open>
  Strings are lists of characters. The character classes below are the ASCII part of
  Python's: \<^verbatim>\<open>\d\<close> and \<^verbatim>\<open>int()\<close> on the digits \<^verbatim>\<open>0\<close> to \<^verbatim>\<open>9\<close>.
\<close>

definition is_digit :: "char \<Rightarrow> bool" where
  "is_digit c = (c \<in> set ''0123456789'')"

definition digit_val :: "char \<Rightarrow> nat" where
  "digit_val c = of_char c - 48"

definition digit_char :: "nat \<Rightarrow> char" where
  "digit_char d = ''0123456789'' ! d"

text \<open>\<^verbatim>\<open>int(s)\<close> on a string of decimal digits.\<close>

definition int_of_digits :: "string \<Rightarrow> nat" where
  "int_of_digits ds = foldl (\<lambda>a c. 10 * a + digit_val c) 0 ds"

text \<open>\<^verbatim>\<open>str(n)\<close> for a non-negative integer.\<close>

fun str_nat :: "nat \<Rightarrow> string" where
  "str_nat n = (if n < 10 then [digit_char n] else str_nat (n div 10) @ [digit_char (n mod 10)])"

declare str_nat.simps [simp del]

text \<open>\<^verbatim>\<open>"{:03d}".format(ver)\<close>: decimal, padded with zeros on the left to width 3.\<close>

definition fmt03 :: "nat \<Rightarrow> string" where
  "fmt03 n = replicate (3 - length (str_nat n)) (CHR ''0'') @ str_nat n"

text \<open>\<^verbatim>\<open>sub in s\<close> on strings: \<open>sub\<close> occurs in \<open>s\<close> as a contiguous run.\<close>

fun str_in :: "string \<Rightarrow> string \<Rightarrow> bool" where
  "str_in sub [] = (sub = [])"
| "str_in sub (c # cs) = (prefix sub (c # cs) \<or> str_in sub cs)"

text \<open>\<^verbatim>\<open>s.endswith(suf)\<close>.\<close>

definition endswith :: "string \<Rightarrow> string \<Rightarrow> bool" where
  "endswith s suf = suffix suf s"

text \<open>
  \<^verbatim>\<open>os.path.join(a, b)\<close> with two arguments, as \<^verbatim>\<open>posixpath\<close> has it: an absolute
  \<open>b\<close> replaces \<open>a\<close>; otherwise one separator is put between them unless \<open>a\<close> is
  empty or already ends with one.
\<close>

definition os_path_join :: "string \<Rightarrow> string \<Rightarrow> string" where
  "os_path_join a b =
     (if prefix ''/'' b then b
      else if a = [] \<or> suffix ''/'' a then a @ b
      else a @ ''/'' @ b)"

text \<open>\<^verbatim>\<open>max(xs)\<close> on a non-empty list (the callers below never pass an empty one).\<close>

fun list_max :: "'a::linorder list \<Rightarrow> 'a" where
  "list_max (x # xs) = fold max xs x"
| "list_max [] = undefined"

section \<open>Saver.generate_savename\<close>

text \<open>
  \<^verbatim>\<open>re.search("_v(\d+)", file)\<close>: the leftmost position where \<^verbatim>\<open>_v\<close> is followed by at
  least one digit; group 1 is the longest run of digits from there. \<open>None\<close> when there is
  no such position.
\<close>

fun re_search_v :: "string \<Rightarrow> string option" where
  "re_search_v [] = None"
| "re_search_v (c # cs) =
     (if c = CHR ''_'' \<and> (case cs of v # d # _ \<Rightarrow> v = CHR ''v'' \<and> is_digit d | _ \<Rightarrow> False)
      then Some (takeWhile is_digit (tl cs))
      else re_search_v cs)"

text \<open>
  \<^verbatim>\<open>[int(re.search("_v(\d+)", file).group(1)) for file in files]\<close>: \<^verbatim>\<open>.group\<close> on the
  \<^verbatim>\<open>None\<close> of a failed search raises AttributeError, at the first such file.
\<close>

fun versions :: "string list \<Rightarrow> py_error + nat list" where
  "versions [] = Inr []"
| "versions (file # files) =
     (case re_search_v file of
        None \<Rightarrow> Inl AttributeError
      | Some ds \<Rightarrow>
          (case versions files of
             Inl e \<Rightarrow> Inl e
           | Inr vs \<Rightarrow> Inr (int_of_digits ds # vs)))"

definition base_name :: "string \<Rightarrow> string \<Rightarrow> string" where
  "base_name pfx timestamp = pfx @ ''_'' @ timestamp @ ''_v''"

text \<open>
  \<open>generate_savename pfx timestamp save_dir listing\<close>: \<open>timestamp\<close> is what
  \<^verbatim>\<open>time.strftime("%Y%m%d", time.localtime())\<close> returns and \<open>listing\<close> is
  \<^verbatim>\<open>os.listdir(save_dir)\<close> after \<^verbatim>\<open>check_dir(save_dir)\<close>. The result is the pair
  \<^verbatim>\<open>(save_dir, filename)\<close> of the source.
\<close>

definition next_version :: "string \<Rightarrow> string \<Rightarrow> string list \<Rightarrow> py_error + nat" where
  "next_version pfx timestamp listing =
     (let files = filter (str_in (base_name pfx timestamp)) listing in
      if length files > 0 then
        (case versions files of
           Inl e \<Rightarrow> Inl e
         | Inr ver \<Rightarrow> Inr (list_max ver + 1))
      else Inr 1)"

definition generate_savename ::
  "string \<Rightarrow> string \<Rightarrow> string \<Rightarrow> string list \<Rightarrow> py_error + (string \<times> string)" where
  "generate_savename pfx timestamp save_dir listing =
     (case next_version pfx timestamp listing of
        Inl e \<Rightarrow> Inl e
      | Inr ver \<Rightarrow>
          (let filename = base_name pfx timestamp @ fmt03 ver
           in Inr (os_path_join save_dir filename, filename)))"

text \<open>
  What the claim about the version scan says of a directory entry, in its own terms and
  without the pattern of the code: the entry carries a \<^verbatim>\<open>_v<digits>\<close> suffix, that is,
  its name ends in a run of digits with \<^verbatim>\<open>_v\<close> before it, and its version is the number
  these digits spell. \<open>has_version_mark s\<close> says that \<^verbatim>\<open>_v\<close> followed by a digit
  occurs somewhere in \<open>s\<close>. An entry is plainly versioned when it carries the suffix and
  no \<^verbatim>\<open>_v<digit>\<close> occurs before it.
\<close>

definition trailing_digits :: "string \<Rightarrow> string" where
  "trailing_digits s = rev (takeWhile is_digit (rev s))"

definition stem :: "string \<Rightarrow> string" where
  "stem s = take (length s - length (trailing_digits s)) s"

definition trailing_version :: "string \<Rightarrow> nat" where
  "trailing_version s = int_of_digits (trailing_digits s)"

definition has_version_mark :: "string \<Rightarrow> bool" where
  "has_version_mark s = (\<exists>d\<in>set ''0123456789''. str_in (''_v'' @ [d]) s)"

definition plain_versioned :: "string \<Rightarrow> bool" where
  "plain_versioned s =
     (trailing_digits s \<noteq> [] \<and> suffix ''_v'' (stem s) \<and>
      \<not> has_version_mark (take (length (stem s) - 2) (stem s)))"

text \<open>
  Modelled from the spec: \<^verbatim>\<open>check_dir\<close> of \<^verbatim>\<open>utils.py\<close>, which is not among the
  sources. The spec has the run's save directory "created once at startup"; \<open>check_dir\<close>
  on a path adds the directory to its parent's listing when it is not there yet.
\<close>

definition check_dir :: "string \<Rightarrow> string list \<Rightarrow> string list" where
  "check_dir name listing = (if name \<in> set listing then listing else listing @ [name])"

section \<open>Saver: finding and choosing the files to load\<close>

text \<open>
  The part of the file system under \<^verbatim>\<open>args.save_dir\<close>: a file has a name and a
  modification time, a directory a name and its entries.
\<close>

datatype fs_node = File string int | Dir string "fs_node list"

fun node_name :: "fs_node \<Rightarrow> string" where
  "node_name (File name _) = name"
| "node_name (Dir name _) = name"

text \<open>The \<^verbatim>\<open>files\<close> component \<^verbatim>\<open>os.walk\<close> yields for a directory: its non-directory entries.\<close>

fun files_of :: "fs_node list \<Rightarrow> (string \<times> int) list" where
  "files_of [] = []"
| "files_of (File name mtime # entries) = (name, mtime) # files_of entries"
| "files_of (Dir _ _ # entries) = files_of entries"

text \<open>
  \<^verbatim>\<open>os.walk(path)\<close>, top-down: the directory at \<open>path\<close> first, then each of its
  subdirectories in turn. Each item is \<^verbatim>\<open>(root, files)\<close>, the files with their modification
  times. A path that is not a directory yields nothing.
\<close>

fun os_walk :: "string \<Rightarrow> fs_node \<Rightarrow> (string \<times> (string \<times> int) list) list" where
  "os_walk path (File _ _) = []"
| "os_walk path (Dir _ entries) =
     (path, files_of entries) #
     concat (map (\<lambda>e. os_walk (os_path_join path (node_name e)) e) entries)"

text \<open>
  \<^verbatim>\<open>Saver._get_files(save_dir)\<close>: the paths of the files under \<open>save_dir\<close> whose names end
  in \<^verbatim>\<open>.agent\<close>, sorted by modification time (Python's sort is stable, and so is
  \<open>sort_key\<close>). \<open>tree\<close> is what is at \<open>save_dir\<close>, \<open>None\<close> when nothing is.
\<close>

definition agent_files_in :: "string \<times> (string \<times> int) list \<Rightarrow> (string \<times> int) list" where
  "agent_files_in item =
     (case item of (dirpath, files) \<Rightarrow>
        map (\<lambda>(file, mtime). (os_path_join dirpath file, mtime))
          (filter (\<lambda>(file, mtime). endswith file ''.agent'') files))"

definition get_files :: "string \<Rightarrow> fs_node option \<Rightarrow> string list" where
  "get_files save_dir tree =
     (let file_list =
        (case tree of
           None \<Rightarrow> []
         | Some node \<Rightarrow> concat (map agent_files_in (os_walk save_dir node)))
      in map fst (sort_key snd file_list))"

text \<open>\<^verbatim>\<open>s.lower()\<close> on ASCII letters.\<close>

definition char_lower :: "char \<Rightarrow> char" where
  "char_lower c =
     (if (65::nat) \<le> of_char c \<and> of_char c \<le> (90::nat) then char_of (of_char c + (32::nat)) else c)"

definition str_lower :: "string \<Rightarrow> string" where
  "str_lower s = map char_lower s"

text \<open>
  \<^verbatim>\<open>int(s)\<close> on a string: white space around the number is dropped, one sign may come
  first, and the digits may be grouped with single underscores. \<open>None\<close> is ValueError.
\<close>

definition is_space :: "char \<Rightarrow> bool" where
  "is_space c =
     (let n = (of_char c :: nat)
      in (9 \<le> n \<and> n \<le> 13) \<or> n = 32 \<or> n = 133 \<or> n = 160)"

definition str_strip :: "string \<Rightarrow> string" where
  "str_strip s = rev (dropWhile is_space (rev (dropWhile is_space s)))"

fun digit_groups :: "string \<Rightarrow> bool" where
  "digit_groups [] = False"
| "digit_groups [d] = is_digit d"
| "digit_groups (d # u # cs) =
     (is_digit d \<and> (if u = CHR ''_'' then digit_groups cs else digit_groups (u # cs)))"

definition int_unsigned :: "string \<Rightarrow> int option" where
  "int_unsigned s =
     (if digit_groups s then Some (int (int_of_digits (filter is_digit s))) else None)"

definition py_int :: "string \<Rightarrow> int option" where
  "py_int s =
     (case str_strip s of
        [] \<Rightarrow> None
      | c # cs \<Rightarrow>
          if c = CHR ''-'' then map_option uminus (int_unsigned cs)
          else if c = CHR ''+'' then int_unsigned cs
          else int_unsigned (c # cs))"

definition user_quit_message :: string where
  "user_quit_message = ''User quit process before loading a file.''"

definition no_files_found :: "string \<Rightarrow> string" where
  "no_files_found save_dir = ''Could not find any files in: '' @ save_dir"

text \<open>
  The \<^verbatim>\<open>try\<close> block of \<^verbatim>\<open>Saver._get_filepath\<close>:
  \<^verbatim>\<open>file_index = len(files) - int(save_file); assert file_index >= 0; return files[file_index]\<close>.
  After the assertion the index is not negative, so the subscript raises exactly when it
  is \<^verbatim>\<open>len(files)\<close> or more.
\<close>

definition select_file :: "string list \<Rightarrow> string \<Rightarrow> py_error + string" where
  "select_file files save_file =
     (case py_int save_file of
        None \<Rightarrow> Inl ValueError
      | Some k \<Rightarrow>
          (let file_index = int (length files) - k
           in if \<not> file_index \<ge> 0 then Inl (AssertionError [])
              else if file_index \<ge> int (length files) then Inl IndexError
              else Inr (files ! nat file_index)))"

text \<open>
  \<^verbatim>\<open>Saver._get_filepath(files, idx)\<close>. \<open>inputs\<close> are the lines still to be read from
  standard input; \<^verbatim>\<open>input(message)\<close> takes the first and raises EOFError when there is
  none. The result carries the lines left. The prompt text is output only and is not
  modelled. The bare \<^verbatim>\<open>except:\<close> catches whatever the \<^verbatim>\<open>try\<close> block raises; its handler
  reports the input as invalid and then evaluates \<^verbatim>\<open>_get_filepath(files)\<close>, a name that
  is bound neither locally nor in the module (the function is an attribute of the class),
  so the handler raises NameError.
\<close>

definition get_filepath ::
  "string list \<Rightarrow> nat \<Rightarrow> string list \<Rightarrow> py_error + (string \<times> string list)" where
  "get_filepath files idx inputs =
     (case inputs of
        [] \<Rightarrow> Inl EOFError
      | save_file # rest \<Rightarrow>
          if str_lower save_file \<in> set [''q'', ''quit'']
          then Inl (KeyboardInterrupt user_quit_message)
          else (case select_file files save_file of
                  Inr file \<Rightarrow> Inr (file, rest)
                | Inl _ \<Rightarrow> Inl (NameError ''name '_get_filepath' is not defined'')))"

text \<open>\<^verbatim>\<open>[self._get_filepath(files, i) for i in range(agent_count)]\<close>, the prompts in order.\<close>

fun get_filepaths ::
  "string list \<Rightarrow> nat list \<Rightarrow> string list \<Rightarrow> py_error + string list" where
  "get_filepaths files [] inputs = Inr []"
| "get_filepaths files (i # idxs) inputs =
     (case get_filepath files i inputs of
        Inl e \<Rightarrow> Inl e
      | Inr (file, rest) \<Rightarrow>
          (case get_filepaths files idxs rest of
             Inl e \<Rightarrow> Inl e
           | Inr chosen \<Rightarrow> Inr (file # chosen)))"

text \<open>The command-line arguments the Saver reads.\<close>

record cmd_args =
  resume :: bool
  eval :: bool
  save_dir :: string

text \<open>
  \<^verbatim>\<open>Saver._get_agent_file(args, agent_count)\<close>: \<open>None\<close> is the \<^verbatim>\<open>False\<close> the source
  returns when nothing is to be loaded. The \<^verbatim>\<open>assert\<close> is taken as enabled (the
  interpreter's default).
\<close>

definition get_agent_file ::
  "cmd_args \<Rightarrow> nat \<Rightarrow> fs_node option \<Rightarrow> string list \<Rightarrow> py_error + string list option" where
  "get_agent_file args agent_count tree inputs =
     (if resume args \<or> eval args then
        (let files = get_files (save_dir args) tree
         in if \<not> length files > 0 then Inl (AssertionError (no_files_found (save_dir args)))
            else (case get_filepaths files [0..<agent_count] inputs of
                    Inl e \<Rightarrow> Inl e
                  | Inr chosen \<Rightarrow> Inr (Some chosen)))
      else Inr None)"

text \<open>
  \<^verbatim>\<open>os.listdir(save_dir)\<close> after \<^verbatim>\<open>check_dir(save_dir)\<close>: a missing directory has been
  created and is empty.
\<close>

definition os_listdir :: "fs_node option \<Rightarrow> py_error + string list" where
  "os_listdir tree =
     (case tree of
        None \<Rightarrow> Inr []
      | Some (Dir _ entries) \<Rightarrow> Inr (map node_name entries)
      | Some (File _ _) \<Rightarrow> Inl OSError)"

text \<open>
  \<^verbatim>\<open>Saver.__init__\<close>. The Saver that results records the files whose weights were loaded
  into the agents (\<open>None\<close> when \<^verbatim>\<open>_load_agent\<close> was not called: nothing to load, or an
  empty selection, which Python takes as false).
\<close>

record saver =
  file_ext :: string
  saver_save_dir :: string
  filename :: string
  loaded :: "string list option"

definition saver_init ::
  "string \<Rightarrow> nat \<Rightarrow> cmd_args \<Rightarrow> string \<Rightarrow> fs_node option \<Rightarrow> string list \<Rightarrow> py_error + saver" where
  "saver_init framework agent_count args timestamp tree inputs =
     (case get_agent_file args agent_count tree inputs of
        Inl e \<Rightarrow> Inl e
      | Inr load_file \<Rightarrow>
          (case os_listdir tree of
             Inl e \<Rightarrow> Inl e
           | Inr listing \<Rightarrow>
               (case generate_savename framework timestamp (save_dir args) listing of
                  Inl e \<Rightarrow> Inl e
                | Inr (dir, name) \<Rightarrow>
                    Inr \<lparr>file_ext = ''.agent'', saver_save_dir = dir, filename = name,
                         loaded = (case load_file of
                                     None \<Rightarrow> None
                                   | Some chosen \<Rightarrow> if chosen = [] then None else Some chosen)\<rparr>)))"

text \<open>
  What the claims about startup say of the save directory and of the user's answers, in
  their own terms: the tree under the save directory has a file whose name ends in
  \<^verbatim>\<open>.agent\<close>; and an answer to the prompt is a valid selection when it is not the
  request to quit and names one of the files listed.
\<close>

fun contains_agent_file :: "fs_node \<Rightarrow> bool" where
  "contains_agent_file (File _ _) = False"
| "contains_agent_file (Dir _ entries) =
     (\<exists>e\<in>set entries.
        (case e of File name _ \<Rightarrow> endswith name ''.agent'' | Dir _ _ \<Rightarrow> contains_agent_file e))"

definition valid_selection :: "string list \<Rightarrow> string \<Rightarrow> bool" where
  "valid_selection files save_file =
     (str_lower save_file \<notin> set [''q'', ''quit''] \<and>
      (case py_int save_file of
         None \<Rightarrow> False
       | Some k \<Rightarrow> 1 \<le> k \<and> k \<le> int (length files)))"

section \<open>Logger: rewards, scores and the log files\<close>

text \<open>
  The numbers a Logger handles (rewards, scores, losses) are of a type \<open>'a\<close> with the
  operations the code uses on them: addition, zero and an order. The text of a number,
  \<^verbatim>\<open>str(x)\<close>, is the parameter \<open>str_of\<close> of the functions that write one.
\<close>

text \<open>
  What the Logger reads from the agents at a time step: \<^verbatim>\<open>multi_agent.t_step\<close> and, for
  each agent, \<^verbatim>\<open>(agent.actor_loss, agent.critic_loss)\<close>.
\<close>

record 'a multi_agent =
  t_step :: int
  agents :: "('a \<times> 'a) list"

text \<open>
  The fields of a Logger that the modelled methods read or write. \<open>scoresfile\<close> is the
  content of the scores file; \<open>lossfiles\<close> has, for each agent, its loss files as
  \<^verbatim>\<open>(name, content)\<close>.
\<close>

record 'a logger =
  logger_eval :: bool
  log_every :: int
  print_every :: nat
  agent_count :: nat
  rewards :: "'a list"
  scores :: "'a list"
  scoresfile :: string
  lossfiles :: "(string \<times> string) list list"

text \<open>\<^verbatim>\<open>deque(maxlen=m).append(x)\<close>: the oldest items go when the deque is full.\<close>

definition deque_append :: "nat \<Rightarrow> 'a list \<Rightarrow> 'a \<Rightarrow> 'a list" where
  "deque_append m xs x = (let ys = xs @ [x] in drop (length ys - m) ys)"

text \<open>
  \<^verbatim>\<open>acc += rewards\<close> on a one-dimensional array \<open>acc\<close>: elementwise when the lengths
  agree, a single value is broadcast, any other length raises ValueError.
\<close>

definition np_iadd :: "'a::plus list \<Rightarrow> 'a list \<Rightarrow> py_error + 'a list" where
  "np_iadd acc rs =
     (if length rs = length acc then Inr (map2 (+) acc rs)
      else if length rs = 1 then Inr (map (\<lambda>a. a + hd rs) acc)
      else Inl ValueError)"

text \<open>\<^verbatim>\<open>Logger._write_losses\<close>, the inner loop over the loss files of one agent.\<close>

fun write_agent_losses ::
  "('a \<Rightarrow> string) \<Rightarrow> 'a \<times> 'a \<Rightarrow> (string \<times> string) list \<Rightarrow> py_error + (string \<times> string) list" where
  "write_agent_losses str_of agent [] = Inr []"
| "write_agent_losses str_of agent ((name, content) # files) =
     (if str_in ''actorloss'' name then
        (case write_agent_losses str_of agent files of
           Inl e \<Rightarrow> Inl e
         | Inr files' \<Rightarrow> Inr ((name, content @ str_of (fst agent) @ [CHR 0x0A]) # files'))
      else if str_in ''criticloss'' name then
        (case write_agent_losses str_of agent files of
           Inl e \<Rightarrow> Inl e
         | Inr files' \<Rightarrow> Inr ((name, content @ str_of (snd agent) @ [CHR 0x0A]) # files'))
      else Inl ValueError)"

text \<open>
  \<^verbatim>\<open>Logger._write_losses\<close>, the outer loop \<^verbatim>\<open>for idx, agent in enumerate(multi_agent.agents)\<close>:
  \<^verbatim>\<open>self.lossfiles[idx]\<close> raises KeyError for an agent that has no loss files.
\<close>

fun write_losses ::
  "('a \<Rightarrow> string) \<Rightarrow> ('a \<times> 'a) list \<Rightarrow> (string \<times> string) list list
     \<Rightarrow> py_error + (string \<times> string) list list" where
  "write_losses str_of [] lfs = Inr lfs"
| "write_losses str_of (agent # rest) [] = Inl KeyError"
| "write_losses str_of (agent # rest) (files # lfs) =
     (case write_agent_losses str_of agent files of
        Inl e \<Rightarrow> Inl e
      | Inr files' \<Rightarrow>
          (case write_losses str_of rest lfs of
             Inl e \<Rightarrow> Inl e
           | Inr lfs' \<Rightarrow> Inr (files' # lfs')))"

text \<open>
  \<^verbatim>\<open>Logger.log(rewards, multi_agent)\<close>. The remainder by \<open>log_every = 0\<close> raises
  ZeroDivisionError.
\<close>

definition log ::
  "('a \<Rightarrow> string) \<Rightarrow> 'a::plus list \<Rightarrow> 'a multi_agent \<Rightarrow> 'a logger \<Rightarrow> py_error + 'a logger" where
  "log str_of rs ma L =
     (case np_iadd (rewards L) rs of
        Inl e \<Rightarrow> Inl e
      | Inr acc \<Rightarrow>
          (let L1 = L\<lparr>rewards := acc\<rparr>
           in if logger_eval L1 then Inr L1
              else if log_every L1 = 0 then Inl ZeroDivisionError
              else if t_step ma mod log_every L1 = 0 then
                (case write_losses str_of (agents ma) (lossfiles L1) of
                   Inl e \<Rightarrow> Inl e
                 | Inr lfs \<Rightarrow> Inr (L1\<lparr>lossfiles := lfs\<rparr>))
              else Inr L1))"

text \<open>
  \<^verbatim>\<open>Logger._update_score\<close>: \<^verbatim>\<open>self.rewards.max()\<close> raises ValueError on an empty
  array.
\<close>

definition update_score :: "'a::linorder logger \<Rightarrow> py_error + 'a logger" where
  "update_score L =
     (if rewards L = [] then Inl ValueError
      else (let score = list_max (rewards L)
            in Inr (L\<lparr>scores := deque_append (print_every L) (scores L) score\<rparr>)))"

text \<open>\<^verbatim>\<open>Logger._reset_rewards\<close>: \<^verbatim>\<open>np.zeros(self.agent_count)\<close>.\<close>

definition reset_rewards :: "'a::zero logger \<Rightarrow> 'a logger" where
  "reset_rewards L = L\<lparr>rewards := replicate (agent_count L) 0\<rparr>"

text \<open>\<^verbatim>\<open>Logger.latest_score\<close>: \<^verbatim>\<open>self.scores[-1]\<close> raises IndexError on an empty deque.\<close>

definition latest_score :: "'a logger \<Rightarrow> py_error + 'a" where
  "latest_score L = (if scores L = [] then Inl IndexError else Inr (last (scores L)))"

text \<open>\<^verbatim>\<open>Logger._write_scores\<close>: one line is appended to the scores file.\<close>

definition write_scores :: "('a \<Rightarrow> string) \<Rightarrow> 'a logger \<Rightarrow> py_error + 'a logger" where
  "write_scores str_of L =
     (case latest_score L of
        Inl e \<Rightarrow> Inl e
      | Inr score \<Rightarrow> Inr (L\<lparr>scoresfile := scoresfile L @ str_of score @ [CHR 0x0A]\<rparr>))"

text \<open>
  \<^verbatim>\<open>Logger.step(eps_num, multi_agent)\<close>, up to and including \<^verbatim>\<open>self._write_scores()\<close>.
  What follows in the source prints a report and changes none of the fields above. In
  evaluation mode the score is printed, which reads \<^verbatim>\<open>latest_score\<close>, and nothing is
  written.
\<close>

definition step :: "('a \<Rightarrow> string) \<Rightarrow> 'a::{zero,linorder} logger \<Rightarrow> py_error + 'a logger" where
  "step str_of L =
     (case update_score L of
        Inl e \<Rightarrow> Inl e
      | Inr L1 \<Rightarrow>
          (let L2 = reset_rewards L1
           in if logger_eval L2 then
                (case latest_score L2 of Inl e \<Rightarrow> Inl e | Inr _ \<Rightarrow> Inr L2)
              else write_scores str_of L2))"

text \<open>The calls of \<^verbatim>\<open>logger.log\<close> over the time steps of an episode, in order.\<close>

fun log_all ::
  "('a \<Rightarrow> string) \<Rightarrow> ('a::plus list \<times> 'a multi_agent) list \<Rightarrow> 'a logger \<Rightarrow> py_error + 'a logger" where
  "log_all str_of [] L = Inr L"
| "log_all str_of ((rs, ma) # steps) L =
     (case log str_of rs ma L of
        Inl e \<Rightarrow> Inl e
      | Inr L' \<Rightarrow> log_all str_of steps L')"

text \<open>
  Recording a list of scores one by one as \<^verbatim>\<open>Logger.step\<close> does for each episode:
  the score is appended to the deque and \<^verbatim>\<open>_write_scores\<close> writes it.
\<close>

fun write_all_scores :: "('a \<Rightarrow> string) \<Rightarrow> 'a list \<Rightarrow> 'a logger \<Rightarrow> py_error + 'a logger" where
  "write_all_scores str_of [] L = Inr L"
| "write_all_scores str_of (x # xs) L =
     (case write_scores str_of (L\<lparr>scores := deque_append (print_every L) (scores L) x\<rparr>) of
        Inl e \<Rightarrow> Inl e
      | Inr L' \<Rightarrow> write_all_scores str_of xs L')"

text \<open>The content of a scores file that holds the scores \<open>xs\<close>, one line each.\<close>

definition score_lines :: "('a \<Rightarrow> string) \<Rightarrow> 'a list \<Rightarrow> string" where
  "score_lines str_of xs = concat (map (\<lambda>x. str_of x @ [CHR 0x0A]) xs)"

section \<open>Reading the scores back: Logger.plot_logs\<close>

text \<open>
  The line boundaries of \<^verbatim>\<open>str.splitlines\<close> among the characters below 256: line feed,
  carriage return, vertical tab, form feed, the file, group and record separators and
  next line. A carriage return followed by a line feed is one boundary.
\<close>

definition is_linebreak :: "char \<Rightarrow> bool" where
  "is_linebreak c = (c \<in> set [CHR 0x0A, CHR 0x0D, CHR 0x0B, CHR 0x0C, CHR 0x1C, CHR 0x1D, CHR 0x1E, CHR 0x85])"

text \<open>\<open>splitlines_from cur s\<close>: the lines of \<open>s\<close>, the first one continuing \<open>cur\<close>.\<close>

fun splitlines_from :: "string \<Rightarrow> string \<Rightarrow> string list" where
  "splitlines_from cur [] = (if cur = [] then [] else [cur])"
| "splitlines_from cur [c] = (if is_linebreak c then [cur] else [cur @ [c]])"
| "splitlines_from cur (c # d # cs) =
     (if c = CHR 0x0D \<and> d = CHR 0x0A then cur # splitlines_from [] cs
      else if is_linebreak c then cur # splitlines_from [] (d # cs)
      else splitlines_from (cur @ [c]) (d # cs))"

definition splitlines :: "string \<Rightarrow> string list" where
  "splitlines s = splitlines_from [] s"

text \<open>
  Reading a file opened with \<^verbatim>\<open>open(path, 'r')\<close>: universal newlines, every
  \<^verbatim>\<open>\r\n\<close> and every other \<^verbatim>\<open>\r\<close> arrives as \<^verbatim>\<open>\n\<close>.
\<close>

fun universal_newlines :: "string \<Rightarrow> string" where
  "universal_newlines [] = []"
| "universal_newlines [c] = (if c = CHR 0x0D then [CHR 0x0A] else [c])"
| "universal_newlines (c # d # cs) =
     (if c = CHR 0x0D \<and> d = CHR 0x0A then CHR 0x0A # universal_newlines cs
      else if c = CHR 0x0D then CHR 0x0A # universal_newlines (d # cs)
      else c # universal_newlines (d # cs))"

text \<open>
  \<^verbatim>\<open>[float(score) for score in f.read().splitlines()]\<close>: \<open>float_of\<close> is Python's
  \<^verbatim>\<open>float\<close> on a string, \<open>None\<close> where it raises ValueError.
\<close>

fun parse_all :: "(string \<Rightarrow> 'a option) \<Rightarrow> string list \<Rightarrow> py_error + 'a list" where
  "parse_all float_of [] = Inr []"
| "parse_all float_of (line # lines) =
     (case float_of line of
        None \<Rightarrow> Inl ValueError
      | Some x \<Rightarrow>
          (case parse_all float_of lines of
             Inl e \<Rightarrow> Inl e
           | Inr xs \<Rightarrow> Inr (x # xs)))"

definition read_scores :: "(string \<Rightarrow> 'a option) \<Rightarrow> string \<Rightarrow> py_error + 'a list" where
  "read_scores float_of content = parse_all float_of (splitlines (universal_newlines content))"

section \<open>The episode loop of train\<close>

text \<open>\<^verbatim>\<open>np.any\<close> on an array of truth values, and the truth value of a number.\<close>

definition np_any :: "bool list \<Rightarrow> bool" where
  "np_any bs = (True \<in> set bs)"

definition truthy :: "'a::zero \<Rightarrow> bool" where
  "truthy x = (x \<noteq> 0)"

text \<open>
  The condition \<^verbatim>\<open>np.any(logger.rewards) > 1\<close> of the early cutoff: the truth value
  \<^verbatim>\<open>np.any\<close> returns is compared with 1 as the integer 0 or 1.
\<close>

definition cutoff :: "'a::zero list \<Rightarrow> bool" where
  "cutoff rs = ((of_bool (np_any (map truthy rs)) :: int) > 1)"

text \<open>How the \<^verbatim>\<open>while True\<close> loop of an episode stands after the time steps given.\<close>

datatype loop_exit = EnvDone | Cutoff | Running

text \<open>
  The loop body of \<^verbatim>\<open>train\<close> as far as the Logger and the two \<^verbatim>\<open>break\<close>s go. A time
  step is what the environment and the agents produce in one iteration:
  \<^verbatim>\<open>(rewards, dones)\<close> from \<^verbatim>\<open>env.step\<close> and the agents' state after
  \<^verbatim>\<open>multi_agent.learn()\<close>. With the time steps used up and no \<^verbatim>\<open>break\<close> taken the
  loop is still running.
\<close>

fun episode_loop ::
  "('a \<Rightarrow> string) \<Rightarrow> ('a::{zero,plus} list \<times> bool list \<times> 'a multi_agent) list \<Rightarrow> 'a logger
     \<Rightarrow> py_error + (loop_exit \<times> 'a logger)" where
  "episode_loop str_of [] L = Inr (Running, L)"
| "episode_loop str_of ((rs, dones, ma) # steps) L =
     (case log str_of rs ma L of
        Inl e \<Rightarrow> Inl e
      | Inr L' \<Rightarrow>
          if np_any dones then Inr (EnvDone, L')
          else if cutoff (rewards L') then Inr (Cutoff, L')
          else episode_loop str_of steps L')"

section \<open>Logger._moving_avg\<close>

text \<open>
  The source computes on arrays of 64-bit floating-point numbers. The model has real
  numbers in their place and its arithmetic is exact: it follows which samples are
  combined and how many points come out, and it does not follow the rounding of each
  floating-point operation. What it proves about lengths and positions holds of the
  source; what it proves about values holds of the source only up to that rounding.
\<close>

definition np_mean :: "real list \<Rightarrow> real" where
  "np_mean xs = sum_list xs / real (length xs)"

text \<open>
  \<^verbatim>\<open>np.pad(data, pad_width, mode="mean", stat_length=stat_length)\<close>: \<open>pad_width\<close>
  values are put before the data and as many after it; the value before is the mean of the
  first \<open>stat_length\<close> samples, the value after the mean of the last ones, and
  \<open>stat_length\<close> is cut down to the length of the data. An empty array cannot be
  padded in this mode.
\<close>

definition np_pad_mean :: "real list \<Rightarrow> nat \<Rightarrow> nat \<Rightarrow> py_error + real list" where
  "np_pad_mean data pad_width stat_length =
     (if data = [] then Inl ValueError
      else (let n = min stat_length (length data)
            in Inr (replicate pad_width (np_mean (take n data)) @ data @
                    replicate pad_width (np_mean (drop (length data - n) data)))))"

text \<open>
  The full discrete convolution of \<open>a\<close> and \<open>v\<close> at position \<open>j\<close>: the sum of
  \<open>a[j - i] * v[i]\<close> over the \<open>i\<close> for which both indices are in range.
\<close>

definition conv_at :: "real list \<Rightarrow> real list \<Rightarrow> nat \<Rightarrow> real" where
  "conv_at a v j =
     sum_list (map (\<lambda>i. if i \<le> j \<and> j - i < length a then a ! (j - i) * v ! i else 0)
                [0..<length v])"

definition np_convolve_full :: "real list \<Rightarrow> real list \<Rightarrow> real list" where
  "np_convolve_full a v = map (conv_at a v) [0..<length a + length v - 1]"

text \<open>
  \<^verbatim>\<open>np.convolve(a, v, 'same')\<close>: the middle of the full convolution, as long as the
  longer argument; it starts \<open>(n - 1) div 2\<close> positions in, \<open>n\<close> the length of the
  shorter argument. An empty argument raises ValueError.
\<close>

definition np_convolve_same :: "real list \<Rightarrow> real list \<Rightarrow> py_error + real list" where
  "np_convolve_same a v =
     (if a = [] \<or> v = [] then Inl ValueError
      else Inr (take (max (length a) (length v))
                 (drop ((min (length a) (length v) - 1) div 2) (np_convolve_full a v))))"

text \<open>The slice \<^verbatim>\<open>xs[k:-k]\<close> for \<open>k > 0\<close>.\<close>

definition slice_both :: "nat \<Rightarrow> 'a list \<Rightarrow> 'a list" where
  "slice_both k xs = take (length xs - k - k) (drop k xs)"

text \<open>
  \<^verbatim>\<open>Logger._moving_avg(data, avg_across)\<close>, \<open>avg_across\<close> after \<^verbatim>\<open>int(avg_across)\<close>.
  With \<open>avg_across = 0\<close> the window is empty and \<^verbatim>\<open>np.convolve\<close> raises ValueError.
\<close>

definition moving_avg :: "real list \<Rightarrow> nat \<Rightarrow> py_error + real list" where
  "moving_avg data avg_across =
     (let window = replicate avg_across (1 / real avg_across)
      in case np_pad_mean data avg_across 10 of
           Inl e \<Rightarrow> Inl e
         | Inr padded \<Rightarrow>
             (case np_convolve_same padded window of
                Inl e \<Rightarrow> Inl e
              | Inr conv \<Rightarrow> Inr (slice_both avg_across conv)))"

section \<open>Properties of Saver.generate_savename\<close>

subsection \<open>Decimal text\<close>

lemma digit_val_digit_char: "d < 10 \<Longrightarrow> digit_val (digit_char d) = d"
proof -
  assume "d < 10"
  then have "d \<in> {0, 1, 2, 3, 4, 5, 6, 7, 8, 9}" by auto
  then show ?thesis
    by (auto simp: digit_val_def digit_char_def)
qed

lemma is_digit_digit_char: "d < 10 \<Longrightarrow> is_digit (digit_char d)"
proof -
  assume "d < 10"
  then have "d \<in> {0, 1, 2, 3, 4, 5, 6, 7, 8, 9}" by auto
  then show ?thesis
    by (auto simp: is_digit_def digit_char_def)
qed

lemma int_of_digits_snoc: "int_of_digits (ds @ [c]) = 10 * int_of_digits ds + digit_val c"
  by (simp add: int_of_digits_def)

lemma int_of_digits_str_nat: "int_of_digits (str_nat n) = n"
proof (induction n rule: str_nat.induct)
  case (1 n)
  show ?case
  proof (cases "n < 10")
    case True
    then show ?thesis
      by (subst str_nat.simps) (simp add: int_of_digits_def digit_val_digit_char)
  next
    case False
    with 1 have "int_of_digits (str_nat (n div 10)) = n div 10" by simp
    with False show ?thesis
      by (subst str_nat.simps) (simp add: int_of_digits_snoc digit_val_digit_char)
  qed
qed

lemma int_of_digits_zeros: "int_of_digits (replicate k (CHR ''0'') @ ds) = int_of_digits ds"
  by (induction k) (simp_all add: int_of_digits_def digit_val_def)

lemma int_of_digits_fmt03: "int_of_digits (fmt03 n) = n"
  by (simp add: fmt03_def int_of_digits_zeros int_of_digits_str_nat)

lemma versions_some_fail:
  "f \<in> set files \<Longrightarrow> re_search_v f = None \<Longrightarrow> versions files = Inl AttributeError"
proof (induction files)
  case Nil
  then show ?case by simp
next
  case (Cons g files)
  show ?case
  proof (cases "re_search_v g")
    case None
    then show ?thesis by simp
  next
    case (Some ds)
    with Cons.prems have "f \<in> set files" by auto
    with Cons have "versions files = Inl AttributeError" by simp
    with Some show ?thesis by simp
  qed
qed

lemma list_max_Max: "xs \<noteq> [] \<Longrightarrow> list_max xs = Max (set xs)"
  by (cases xs) (simp_all add: Max.set_eq_fold [symmetric])

lemma str_in_prefix: "prefix sub s \<Longrightarrow> str_in sub s"
  by (cases s) auto

lemma str_in_append: "str_in sub (sub @ rest)"
  by (rule str_in_prefix) simp

subsection \<open>The pattern and the version suffix\<close>

lemma not_is_digit_underscore: "\<not> is_digit (CHR ''_'')"
  by (simp add: is_digit_def)

lemma not_is_digit_v: "\<not> is_digit (CHR ''v'')"
  by (simp add: is_digit_def)

lemma is_digit_zero: "is_digit (CHR ''0'')"
  by (simp add: is_digit_def)

lemma re_search_v_skip_underscore:
  "re_search_v xs = None \<Longrightarrow> re_search_v (xs @ CHR ''_'' # s) = re_search_v (CHR ''_'' # s)"
proof (induction xs)
  case Nil
  then show ?case by simp
next
  case (Cons c cs)
  from Cons.prems have tl_none: "re_search_v cs = None"
    by (simp split: if_splits)
  from Cons.prems have
    nomatch: "\<not> (c = CHR ''_'' \<and> (case cs of v # d # _ \<Rightarrow> v = CHR ''v'' \<and> is_digit d | _ \<Rightarrow> False))"
    by (auto split: if_splits)
  have "\<not> (c = CHR ''_'' \<and>
      (case cs @ CHR ''_'' # s of v # d # _ \<Rightarrow> v = CHR ''v'' \<and> is_digit d | _ \<Rightarrow> False))"
  proof (cases cs)
    case Nil
    then show ?thesis by (simp split: list.splits)
  next
    case (Cons v cs')
    show ?thesis
    proof (cases cs')
      case Nil
      with Cons show ?thesis by (simp add: not_is_digit_underscore)
    next
      case (Cons d cs'')
      with \<open>cs = v # cs'\<close> nomatch show ?thesis by simp
    qed
  qed
  then have "re_search_v ((c # cs) @ CHR ''_'' # s) = re_search_v (cs @ CHR ''_'' # s)"
    by (simp only: append_Cons re_search_v.simps if_not_P if_False)
  with Cons.IH [OF tl_none] show ?case by simp
qed

lemma is_digit_neq: "is_digit c \<Longrightarrow> c \<noteq> CHR ''_'' \<and> c \<noteq> CHR ''v''"
  by (auto simp: is_digit_def)

lemma re_search_v_skip_digits:
  "\<forall>c\<in>set ds. is_digit c \<Longrightarrow> re_search_v (ds @ s) = re_search_v s"
  by (induction ds) (auto dest: is_digit_neq)

lemma str_nat_digits: "\<forall>c\<in>set (str_nat n). is_digit c"
proof (induction n rule: str_nat.induct)
  case (1 n)
  show ?case
  proof (cases "n < 10")
    case True
    then show ?thesis
      by (subst str_nat.simps) (simp add: is_digit_digit_char)
  next
    case False
    with 1 have "\<forall>c\<in>set (str_nat (n div 10)). is_digit c" by simp
    with False show ?thesis
      by (subst str_nat.simps) (simp add: is_digit_digit_char)
  qed
qed

lemma str_nat_nonempty: "str_nat n \<noteq> []"
  by (subst str_nat.simps) simp

lemma fmt03_digits: "\<forall>c\<in>set (fmt03 n). is_digit c"
  using str_nat_digits [of n] by (auto simp: fmt03_def is_digit_zero)

lemma fmt03_nonempty: "fmt03 n \<noteq> []"
  by (simp add: fmt03_def str_nat_nonempty)

lemma re_search_v_version_suffix:
  assumes "ds \<noteq> []" and "\<forall>c\<in>set ds. is_digit c"
  shows "re_search_v (''_v'' @ ds) = Some ds"
proof -
  from assms obtain d ds' where ds: "ds = d # ds'" by (cases ds) auto
  with assms have "is_digit d" by simp
  moreover from assms have "takeWhile is_digit ds = ds" by (simp add: takeWhile_eq_all_conv)
  ultimately show ?thesis by (simp add: ds)
qed

lemma has_version_mark_alt:
  "has_version_mark s \<longleftrightarrow> (\<exists>d. is_digit d \<and> str_in (''_v'' @ [d]) s)"
  unfolding has_version_mark_def is_digit_def by blast

lemma prefix_mark:
  "prefix (''_v'' @ [d]) (c # cs) \<longleftrightarrow> c = CHR ''_'' \<and> (\<exists>rest. cs = CHR ''v'' # d # rest)"
  by (auto simp: prefix_def)

lemma has_version_mark_Cons:
  "has_version_mark (c # cs) \<longleftrightarrow>
     (c = CHR ''_'' \<and> (\<exists>d rest. cs = CHR ''v'' # d # rest \<and> is_digit d)) \<or> has_version_mark cs"
  unfolding has_version_mark_alt str_in.simps prefix_mark by blast

lemma pattern_here:
  "(case cs of v # d # _ \<Rightarrow> v = CHR ''v'' \<and> is_digit d | _ \<Rightarrow> False) \<longleftrightarrow>
   (\<exists>d rest. cs = CHR ''v'' # d # rest \<and> is_digit d)"
  by (auto split: list.splits)

text \<open>The pattern of the code finds something exactly in the names that have the mark.\<close>

lemma has_version_mark_iff: "has_version_mark s \<longleftrightarrow> re_search_v s \<noteq> None"
proof (induction s)
  case Nil
  show ?case by (simp add: has_version_mark_alt)
next
  case (Cons c cs)
  show ?case
    unfolding has_version_mark_Cons Cons.IH re_search_v.simps pattern_here by auto
qed

lemma stem_trailing_digits: "stem s @ trailing_digits s = s"
proof -
  have "rev (dropWhile is_digit (rev s)) @ rev (takeWhile is_digit (rev s)) =
        rev (takeWhile is_digit (rev s) @ dropWhile is_digit (rev s))"
    by (simp only: rev_append)
  also have "\<dots> = rev (rev s)" by (simp only: takeWhile_dropWhile_id)
  also have "\<dots> = s" by simp
  finally have s: "rev (dropWhile is_digit (rev s)) @ trailing_digits s = s"
    by (simp only: trailing_digits_def)
  then have "length s = length (rev (dropWhile is_digit (rev s))) + length (trailing_digits s)"
    by (metis length_append)
  then have "stem s = take (length (rev (dropWhile is_digit (rev s))))
      (rev (dropWhile is_digit (rev s)) @ trailing_digits s)"
    by (simp only: stem_def s) simp
  then have "stem s = rev (dropWhile is_digit (rev s))" by simp
  with s show ?thesis by simp
qed

lemma trailing_digits_digits: "\<forall>c\<in>set (trailing_digits s). is_digit c"
  by (auto simp: trailing_digits_def dest: set_takeWhileD)

text \<open>On a plainly versioned entry the pattern extracts the digits of the suffix.\<close>

lemma plain_versioned_pattern:
  assumes "plain_versioned s"
  shows "re_search_v s = Some (trailing_digits s)"
proof -
  from assms have ne: "trailing_digits s \<noteq> []" and suf: "suffix ''_v'' (stem s)"
    and nomark: "\<not> has_version_mark (take (length (stem s) - 2) (stem s))"
    by (simp_all add: plain_versioned_def)
  from suf obtain pre where pre: "stem s = pre @ ''_v''" by (auto simp: suffix_def)
  then have "take (length (stem s) - 2) (stem s) = pre" by simp
  with nomark have "re_search_v pre = None" by (simp add: has_version_mark_iff)
  then have "re_search_v (pre @ CHR ''_'' # (CHR ''v'' # trailing_digits s)) =
      re_search_v (CHR ''_'' # (CHR ''v'' # trailing_digits s))"
    by (rule re_search_v_skip_underscore)
  also have "\<dots> = re_search_v (''_v'' @ trailing_digits s)" by simp
  also have "\<dots> = Some (trailing_digits s)"
    by (rule re_search_v_version_suffix [OF ne trailing_digits_digits])
  finally have "re_search_v ((pre @ ''_v'') @ trailing_digits s) = Some (trailing_digits s)"
    by simp
  then show ?thesis by (simp only: pre [symmetric] stem_trailing_digits)
qed

lemma versions_plain:
  "\<forall>f\<in>set files. plain_versioned f \<Longrightarrow> versions files = Inr (map trailing_version files)"
  by (induction files) (simp_all add: plain_versioned_pattern trailing_version_def)

lemma trailing_digits_suffix:
  assumes "\<forall>c\<in>set ds. is_digit c"
  shows "trailing_digits (pre @ ''_v'' @ ds) = ds"
proof -
  have "rev (pre @ ''_v'' @ ds) = rev ds @ CHR ''v'' # CHR ''_'' # rev pre" by simp
  moreover have "takeWhile is_digit (rev ds @ CHR ''v'' # CHR ''_'' # rev pre) =
      rev ds @ takeWhile is_digit (CHR ''v'' # CHR ''_'' # rev pre)"
    by (rule takeWhile_append2) (use assms in simp)
  then have "takeWhile is_digit (rev ds @ CHR ''v'' # CHR ''_'' # rev pre) = rev ds"
    by (simp add: not_is_digit_v)
  ultimately show ?thesis by (simp add: trailing_digits_def)
qed

lemma stem_suffix:
  assumes "\<forall>c\<in>set ds. is_digit c"
  shows "stem (pre @ ''_v'' @ ds) = pre @ ''_v''"
  using trailing_digits_suffix [OF assms, of pre] by (simp add: stem_def)

subsection \<open>The scan\<close>

text \<open>
  The scan, when every entry that contains the base name is plainly versioned.
\<close>

lemma generate_savename_scan:
  assumes "\<forall>f\<in>set listing. str_in (base_name pfx timestamp) f \<longrightarrow> plain_versioned f"
  shows "\<exists>ver.
           generate_savename pfx timestamp sdir listing =
             Inr (os_path_join sdir (base_name pfx timestamp @ fmt03 ver),
                  base_name pfx timestamp @ fmt03 ver)
         \<and> trailing_version (base_name pfx timestamp @ fmt03 ver) = ver
         \<and> (\<forall>f\<in>set listing. str_in (base_name pfx timestamp) f \<longrightarrow> trailing_version f < ver)
         \<and> (if \<exists>f\<in>set listing. str_in (base_name pfx timestamp) f
             then ver =
               Max (trailing_version ` {f \<in> set listing. str_in (base_name pfx timestamp) f}) + 1
             else ver = 1)"
proof -
  define files where "files = filter (str_in (base_name pfx timestamp)) listing"
  have set_files: "set files = {f \<in> set listing. str_in (base_name pfx timestamp) f}"
    by (simp add: files_def)
  from assms have vs: "versions files = Inr (map trailing_version files)"
    by (intro versions_plain) (simp add: files_def)
  have name: "trailing_version (base_name pfx timestamp @ fmt03 v) = v" for v
  proof -
    have "base_name pfx timestamp @ fmt03 v = (pfx @ ''_'' @ timestamp) @ ''_v'' @ fmt03 v"
      by (simp add: base_name_def)
    then have "trailing_digits (base_name pfx timestamp @ fmt03 v) = fmt03 v"
      by (simp only: trailing_digits_suffix [OF fmt03_digits])
    then show ?thesis by (simp add: trailing_version_def int_of_digits_fmt03)
  qed
  show ?thesis
  proof (cases "files = []")
    case True
    then have nv: "next_version pfx timestamp listing = Inr 1"
      by (simp add: next_version_def files_def)
    from True set_files have none: "\<not> (\<exists>f\<in>set listing. str_in (base_name pfx timestamp) f)"
      by auto
    show ?thesis
      by (rule exI [of _ 1]) (use nv none name [of 1] in \<open>simp add: generate_savename_def Let_def\<close>)
  next
    case False
    define ver where "ver = Max (trailing_version ` set files) + 1"
    from False have "list_max (map trailing_version files) = Max (trailing_version ` set files)"
      by (simp add: list_max_Max)
    with False vs have nv: "next_version pfx timestamp listing = Inr ver"
      by (simp add: next_version_def files_def [symmetric] ver_def Let_def)
    have gt: "trailing_version f < ver" if "f \<in> set files" for f
    proof -
      from that have "trailing_version f \<le> Max (trailing_version ` set files)" by simp
      then show ?thesis by (simp add: ver_def)
    qed
    from False set_files have some: "\<exists>f\<in>set listing. str_in (base_name pfx timestamp) f"
      by (cases files) auto
    show ?thesis
      by (rule exI [of _ ver])
        (use nv gt some set_files name [of ver] in
          \<open>auto simp add: generate_savename_def ver_def Let_def\<close>)
  qed
qed

text \<open>
  An entry that contains the base name and has no \<^verbatim>\<open>_v<digits>\<close> makes the scan fail:
  \<^verbatim>\<open>re.search\<close> returns \<^verbatim>\<open>None\<close> for it and \<^verbatim>\<open>.group\<close> raises AttributeError.
\<close>

lemma generate_savename_unversioned_entry:
  assumes "f \<in> set listing" and "str_in (base_name pfx timestamp) f" and "re_search_v f = None"
  shows "generate_savename pfx timestamp sdir listing = Inl AttributeError"
proof -
  from assms have "f \<in> set (filter (str_in (base_name pfx timestamp)) listing)" by simp
  then have "versions (filter (str_in (base_name pfx timestamp)) listing) = Inl AttributeError"
    using assms(3) by (rule versions_some_fail)
  moreover from assms have "filter (str_in (base_name pfx timestamp)) listing \<noteq> []"
    by (auto simp: filter_empty_conv)
  ultimately show ?thesis
    by (simp add: generate_savename_def next_version_def)
qed

text \<open>
  Claim C1, as amended. Whenever every directory entry whose name contains the base name
  \<^verbatim>\<open><prefix>_<date>_v\<close> is plainly versioned (it ends in \<^verbatim>\<open>_v<digits>\<close> and has no
  \<^verbatim>\<open>_v<digit>\<close> before that suffix), \<open>generate_savename\<close> returns the base name followed
  by a version number, which is the version the returned name itself carries; that version
  is greater than the version of each of these entries, it is the greatest of them plus one
  when there are such entries, and it is 1 when there are none.
\<close>

theorem generate_savename_version:
  assumes "\<forall>f\<in>set listing. str_in (base_name pfx timestamp) f \<longrightarrow> plain_versioned f"
  shows "\<exists>ver.
           generate_savename pfx timestamp sdir listing =
             Inr (os_path_join sdir (base_name pfx timestamp @ fmt03 ver),
                  base_name pfx timestamp @ fmt03 ver)
         \<and> trailing_version (base_name pfx timestamp @ fmt03 ver) = ver
         \<and> (\<forall>f\<in>set listing. str_in (base_name pfx timestamp) f \<longrightarrow> trailing_version f < ver)
         \<and> (if \<exists>f\<in>set listing. str_in (base_name pfx timestamp) f
             then ver =
               Max (trailing_version ` {f \<in> set listing. str_in (base_name pfx timestamp) f}) + 1
             else ver = 1)"
  using assms by (rule generate_savename_scan)

text \<open>
  The theorem at a directory with two versioned runs and an unrelated file.
\<close>

theorem generate_savename_version_witness:
  "plain_versioned ''MAD4PG_20240101_v001''
   \<and> \<not> str_in (base_name ''MAD4PG'' ''20240101'') ''notes.txt''
   \<and> plain_versioned ''MAD4PG_20240101_v007''
   \<and> generate_savename ''MAD4PG'' ''20240101'' ''saves''
        [''MAD4PG_20240101_v001'', ''notes.txt'', ''MAD4PG_20240101_v007''] =
       Inr (''saves/MAD4PG_20240101_v008'', ''MAD4PG_20240101_v008'')
   \<and> trailing_version ''MAD4PG_20240101_v008'' = 8
   \<and> trailing_version ''MAD4PG_20240101_v007'' < 8"
proof -
  have p1: "plain_versioned ''MAD4PG_20240101_v001''"
    and n2: "\<not> str_in (base_name ''MAD4PG'' ''20240101'') ''notes.txt''"
    and p3: "plain_versioned ''MAD4PG_20240101_v007''"
    by code_simp+
  then have h: "\<forall>f\<in>set [''MAD4PG_20240101_v001'', ''notes.txt'', ''MAD4PG_20240101_v007''].
      str_in (base_name ''MAD4PG'' ''20240101'') f \<longrightarrow> plain_versioned f"
    by simp
  have g: "generate_savename ''MAD4PG'' ''20240101'' ''saves''
        [''MAD4PG_20240101_v001'', ''notes.txt'', ''MAD4PG_20240101_v007''] =
       Inr (''saves/MAD4PG_20240101_v008'', ''MAD4PG_20240101_v008'')"
    by code_simp
  have m: "str_in (base_name ''MAD4PG'' ''20240101'') ''MAD4PG_20240101_v007''"
    by code_simp
  from generate_savename_version [OF h, of "''saves''"] obtain ver where
    eq: "generate_savename ''MAD4PG'' ''20240101'' ''saves''
        [''MAD4PG_20240101_v001'', ''notes.txt'', ''MAD4PG_20240101_v007''] =
          Inr (os_path_join ''saves'' (base_name ''MAD4PG'' ''20240101'' @ fmt03 ver),
               base_name ''MAD4PG'' ''20240101'' @ fmt03 ver)"
    and r: "trailing_version (base_name ''MAD4PG'' ''20240101'' @ fmt03 ver) = ver"
    and lt: "\<forall>f\<in>set [''MAD4PG_20240101_v001'', ''notes.txt'', ''MAD4PG_20240101_v007''].
      str_in (base_name ''MAD4PG'' ''20240101'') f \<longrightarrow> trailing_version f < ver"
    by blast
  from eq g have nm: "base_name ''MAD4PG'' ''20240101'' @ fmt03 ver = ''MAD4PG_20240101_v008''"
    by simp
  with r have "ver = trailing_version ''MAD4PG_20240101_v008''" by simp
  also have "\<dots> = 8" by code_simp
  finally have v: "ver = 8" .
  with r nm have t8: "trailing_version ''MAD4PG_20240101_v008'' = 8" by simp
  have "''MAD4PG_20240101_v007'' \<in> set [''MAD4PG_20240101_v001'', ''notes.txt'', ''MAD4PG_20240101_v007'']"
    by simp
  with lt m v have "trailing_version ''MAD4PG_20240101_v007'' < 8" by blast
  with p1 n2 p3 g t8 show ?thesis by blast
qed

text \<open>
  Claim C1 as stated fails on a directory whose only entry contains the base name and
  carries no digits after \<^verbatim>\<open>_v\<close>: there is no versioned entry, and the call raises
  instead of returning version 1.
\<close>

theorem generate_savename_unversioned_counterexample:
  "str_in (base_name ''MAD4PG'' ''20240101'') ''MAD4PG_20240101_vX''
   \<and> re_search_v ''MAD4PG_20240101_vX'' = None
   \<and> generate_savename ''MAD4PG'' ''20240101'' ''saves'' [''MAD4PG_20240101_vX''] = Inl AttributeError"
  by code_simp

subsection \<open>The generated name is new\<close>

text \<open>
  Over plainly versioned entries the name returned is not in the directory yet. The names
  the Saver generates are plainly versioned when the prefix has no \<^verbatim>\<open>_v<digit>\<close> of its
  own and the date is made of digits.
\<close>

lemma generate_savename_fresh:
  assumes "\<forall>f\<in>set listing. str_in (base_name pfx timestamp) f \<longrightarrow> plain_versioned f"
  shows "\<exists>d fname. generate_savename pfx timestamp sdir listing = Inr (d, fname)
                 \<and> fname \<notin> set listing"
proof -
  from generate_savename_scan [OF assms, of sdir] obtain ver where
    eq: "generate_savename pfx timestamp sdir listing =
           Inr (os_path_join sdir (base_name pfx timestamp @ fmt03 ver),
                base_name pfx timestamp @ fmt03 ver)"
    and own: "trailing_version (base_name pfx timestamp @ fmt03 ver) = ver"
    and lt: "\<forall>f\<in>set listing. str_in (base_name pfx timestamp) f \<longrightarrow> trailing_version f < ver"
    by blast
  have "base_name pfx timestamp @ fmt03 ver \<notin> set listing"
  proof
    assume "base_name pfx timestamp @ fmt03 ver \<in> set listing"
    moreover have "str_in (base_name pfx timestamp) (base_name pfx timestamp @ fmt03 ver)"
      by (rule str_in_append)
    ultimately have "trailing_version (base_name pfx timestamp @ fmt03 ver) < ver"
      using lt by blast
    with own show False by simp
  qed
  with eq show ?thesis by blast
qed

lemma generated_plain_versioned:
  assumes pfx: "\<not> has_version_mark pfx" and ts: "\<forall>c\<in>set timestamp. is_digit c"
  shows "plain_versioned (base_name pfx timestamp @ fmt03 ver)"
proof -
  let ?pre = "pfx @ CHR ''_'' # timestamp"
  have name: "base_name pfx timestamp @ fmt03 ver = ?pre @ ''_v'' @ fmt03 ver"
    by (simp add: base_name_def)
  have td: "trailing_digits (?pre @ ''_v'' @ fmt03 ver) = fmt03 ver"
    by (rule trailing_digits_suffix [OF fmt03_digits])
  have st: "stem (?pre @ ''_v'' @ fmt03 ver) = ?pre @ ''_v''"
    by (rule stem_suffix [OF fmt03_digits])
  from pfx have "re_search_v pfx = None" by (simp add: has_version_mark_iff)
  then have "re_search_v ?pre = re_search_v (CHR ''_'' # timestamp)"
    by (rule re_search_v_skip_underscore)
  also have "\<dots> = re_search_v timestamp"
  proof -
    have "\<not> (case timestamp of v # d # _ \<Rightarrow> v = CHR ''v'' \<and> is_digit d | _ \<Rightarrow> False)"
    proof (cases timestamp)
      case Nil
      then show ?thesis by simp
    next
      case (Cons t ts')
      with ts have "t \<noteq> CHR ''v''" by (simp add: is_digit_neq)
      with Cons show ?thesis by (simp split: list.splits)
    qed
    then show ?thesis by simp
  qed
  also have "\<dots> = None"
    using re_search_v_skip_digits [OF ts, of "[]"] by simp
  finally have "\<not> has_version_mark ?pre" by (simp add: has_version_mark_iff)
  then have "\<not> has_version_mark (take (length (?pre @ ''_v'') - 2) (?pre @ ''_v''))"
    by simp
  with td st fmt03_nonempty [of ver] show ?thesis
    by (simp only: plain_versioned_def name) (simp add: suffix_def)
qed

text \<open>
  The pattern is not anchored at the end of the name: it takes the first \<^verbatim>\<open>_v<digits>\<close>.
  With a prefix that has a \<^verbatim>\<open>_v<digit>\<close> of its own, every entry yields the prefix's
  number, and a name already in the directory is returned again.
\<close>

lemma generate_savename_prefix_with_version:
  "generate_savename ''NET_v2'' ''20240101'' ''saves''
     [''NET_v2_20240101_v003'', ''NET_v2_20240101_v007''] =
     Inr (''saves/NET_v2_20240101_v003'', ''NET_v2_20240101_v003'')
   \<and> trailing_version ''NET_v2_20240101_v007'' = 7
   \<and> \<not> plain_versioned ''NET_v2_20240101_v007''"
  by code_simp

text \<open>
  Claim C2. With nothing in the save directory the Saver of the first run gets the name
  \<^verbatim>\<open>MAD4PG_20240101_v001\<close>; once that run's directory exists, the Saver of a second
  run on the same day gets \<^verbatim>\<open>MAD4PG_20240101_v002\<close>; each name is not in the listing
  of the parent directory when it is made.
\<close>

theorem generate_savename_example:
  "generate_savename ''MAD4PG'' ''20240101'' ''saves'' [] =
     Inr (''saves/MAD4PG_20240101_v001'', ''MAD4PG_20240101_v001'')
   \<and> ''MAD4PG_20240101_v001'' \<notin> set []
   \<and> check_dir ''MAD4PG_20240101_v001'' [] = [''MAD4PG_20240101_v001'']
   \<and> generate_savename ''MAD4PG'' ''20240101'' ''saves'' (check_dir ''MAD4PG_20240101_v001'' []) =
     Inr (''saves/MAD4PG_20240101_v002'', ''MAD4PG_20240101_v002'')
   \<and> ''MAD4PG_20240101_v002'' \<notin> set (check_dir ''MAD4PG_20240101_v001'' [])
   \<and> saver_init ''MAD4PG'' 2 \<lparr>resume = False, eval = False, save_dir = ''saves''\<rparr>
         ''20240101'' None [] =
       Inr \<lparr>file_ext = ''.agent'', saver_save_dir = ''saves/MAD4PG_20240101_v001'',
            filename = ''MAD4PG_20240101_v001'', loaded = None\<rparr>
   \<and> saver_init ''MAD4PG'' 2 \<lparr>resume = False, eval = False, save_dir = ''saves''\<rparr>
         ''20240101'' (Some (Dir ''saves'' [Dir ''MAD4PG_20240101_v001'' [Dir ''logs'' []]])) [] =
       Inr \<lparr>file_ext = ''.agent'', saver_save_dir = ''saves/MAD4PG_20240101_v002'',
            filename = ''MAD4PG_20240101_v002'', loaded = None\<rparr>"
  by code_simp

section \<open>Properties of the Saver's startup\<close>


lemma files_of_agent:
  "(\<exists>(f, m)\<in>set (files_of entries). endswith f ''.agent'') \<longleftrightarrow>
   (\<exists>e\<in>set entries. case e of File name _ \<Rightarrow> endswith name ''.agent'' | Dir _ _ \<Rightarrow> False)"
  by (induction entries rule: files_of.induct) auto

lemma agent_files_in_empty:
  "agent_files_in (dirpath, files) = [] \<longleftrightarrow> \<not> (\<exists>(f, m)\<in>set files. endswith f ''.agent'')"
  by (auto simp: agent_files_in_def filter_empty_conv)

lemma node_cases:
  "((case e of File name _ \<Rightarrow> endswith name ''.agent'' | Dir _ _ \<Rightarrow> False) \<or> contains_agent_file e)
   \<longleftrightarrow> (case e of File name _ \<Rightarrow> endswith name ''.agent'' | Dir _ _ \<Rightarrow> contains_agent_file e)"
  by (cases e) simp_all

lemma sort_key_Nil_iff: "sort_key f xs = [] \<longleftrightarrow> xs = []"
  by (metis length_0_conv length_sort)

lemma os_walk_agent:
  "(\<exists>item\<in>set (os_walk path node). agent_files_in item \<noteq> []) \<longleftrightarrow> contains_agent_file node"
proof (induction node arbitrary: path)
  case (File name mtime)
  show ?case by simp
next
  case (Dir name entries)
  have here: "agent_files_in (path, files_of entries) \<noteq> [] \<longleftrightarrow>
      (\<exists>e\<in>set entries. case e of File name _ \<Rightarrow> endswith name ''.agent'' | Dir _ _ \<Rightarrow> False)"
    by (simp add: agent_files_in_empty files_of_agent)
  have below: "(\<exists>item\<in>set (os_walk (os_path_join path (node_name e)) e). agent_files_in item \<noteq> [])
      \<longleftrightarrow> contains_agent_file e" if "e \<in> set entries" for e
    using Dir.IH [OF that] .
  have "(\<exists>item\<in>set (os_walk path (Dir name entries)). agent_files_in item \<noteq> []) \<longleftrightarrow>
        agent_files_in (path, files_of entries) \<noteq> [] \<or>
        (\<exists>e\<in>set entries. \<exists>item\<in>set (os_walk (os_path_join path (node_name e)) e).
            agent_files_in item \<noteq> [])"
    by auto
  also have "\<dots> \<longleftrightarrow>
        (\<exists>e\<in>set entries. case e of File name _ \<Rightarrow> endswith name ''.agent'' | Dir _ _ \<Rightarrow> False) \<or>
        (\<exists>e\<in>set entries. contains_agent_file e)"
    using here below by blast
  also have "\<dots> \<longleftrightarrow>
        (\<exists>e\<in>set entries. (case e of File name _ \<Rightarrow> endswith name ''.agent'' | Dir _ _ \<Rightarrow> False)
                             \<or> contains_agent_file e)"
    by blast
  also have "\<dots> \<longleftrightarrow> contains_agent_file (Dir name entries)"
    by (simp only: contains_agent_file.simps node_cases)
  finally show ?case .
qed

lemma get_files_empty:
  "get_files dir tree = [] \<longleftrightarrow>
   \<not> (case tree of None \<Rightarrow> False | Some node \<Rightarrow> contains_agent_file node)"
proof (cases tree)
  case None
  then show ?thesis by (simp add: get_files_def)
next
  case (Some node)
  have "get_files dir tree = [] \<longleftrightarrow> concat (map agent_files_in (os_walk dir node)) = []"
    by (simp add: get_files_def Some sort_key_Nil_iff)
  also have "\<dots> \<longleftrightarrow> \<not> (\<exists>item\<in>set (os_walk dir node). agent_files_in item \<noteq> [])"
    by auto
  also have "\<dots> \<longleftrightarrow> \<not> contains_agent_file node"
    by (simp only: os_walk_agent)
  finally show ?thesis by (simp add: Some)
qed

lemma get_filepath_no_assertion: "get_filepath files idx inputs \<noteq> Inl (AssertionError msg)"
  by (simp add: get_filepath_def split: list.splits sum.splits)

lemma get_filepaths_no_assertion: "get_filepaths files idxs inputs \<noteq> Inl (AssertionError msg)"
proof (induction idxs arbitrary: inputs)
  case Nil
  show ?case by simp
next
  case (Cons i idxs)
  show ?case
    using get_filepath_no_assertion [of files i inputs msg] Cons.IH
    by (auto split: sum.splits prod.splits)
qed

text \<open>
  Claim C7. In resume or eval mode, when the tree under the save directory has no file
  whose name ends in \<^verbatim>\<open>.agent\<close> (in particular when the directory is missing),
  \<open>get_agent_file\<close> fails with the AssertionError whose message names the save
  directory, and so does the initialisation of the Saver; when there is such a file,
  \<open>get_agent_file\<close> raises no AssertionError at all.
\<close>

theorem get_agent_file_assertion:
  assumes "resume args \<or> eval args"
  shows "if (case tree of None \<Rightarrow> False | Some node \<Rightarrow> contains_agent_file node)
         then (\<forall>msg. get_agent_file args n_agents tree inputs \<noteq> Inl (AssertionError msg))
         else get_agent_file args n_agents tree inputs =
                Inl (AssertionError (''Could not find any files in: '' @ save_dir args))
              \<and> saver_init framework n_agents args timestamp tree inputs =
                Inl (AssertionError (''Could not find any files in: '' @ save_dir args))"
proof (cases "case tree of None \<Rightarrow> False | Some node \<Rightarrow> contains_agent_file node")
  case True
  then have "get_files (save_dir args) tree \<noteq> []"
    by (simp add: get_files_empty)
  with assms have "get_agent_file args n_agents tree inputs \<noteq> Inl (AssertionError msg)" for msg
    using get_filepaths_no_assertion [of "get_files (save_dir args) tree" "[0..<n_agents]" inputs msg]
    by (auto simp: get_agent_file_def Let_def split: sum.splits)
  with True show ?thesis by simp
next
  case False
  then have "get_files (save_dir args) tree = []"
    by (simp add: get_files_empty)
  with assms have "get_agent_file args n_agents tree inputs =
      Inl (AssertionError (''Could not find any files in: '' @ save_dir args))"
    by (auto simp: get_agent_file_def no_files_found_def)
  with False show ?thesis by (simp add: saver_init_def)
qed

text \<open>
  The theorem in resume mode, at a save directory without checkpoint files and at one with
  a checkpoint file.
\<close>

theorem get_agent_file_assertion_witness:
  "(resume \<lparr>resume = True, eval = False, save_dir = ''saves''\<rparr>
      \<or> eval \<lparr>resume = True, eval = False, save_dir = ''saves''\<rparr>)
   \<and> get_agent_file \<lparr>resume = True, eval = False, save_dir = ''saves''\<rparr> 2
        (Some (Dir ''saves'' [File ''notes.txt'' 5, Dir ''MAD4PG_20240101_v001'' []])) [''1'', ''1''] =
       Inl (AssertionError ''Could not find any files in: saves'')
   \<and> get_agent_file \<lparr>resume = True, eval = False, save_dir = ''saves''\<rparr> 2
        (Some (Dir ''saves'' [Dir ''MAD4PG_20240101_v001''
           [File ''MAD4PG_20240101_v001_eps0100_ckpt_agent1.agent'' 30]])) [''1'', ''1''] \<noteq>
       Inl (AssertionError ''Could not find any files in: saves'')"
proof -
  let ?args = "\<lparr>resume = True, eval = False, save_dir = ''saves''\<rparr>"
  let ?empty = "Some (Dir ''saves'' [File ''notes.txt'' 5, Dir ''MAD4PG_20240101_v001'' []])"
  let ?full = "Some (Dir ''saves'' [Dir ''MAD4PG_20240101_v001''
           [File ''MAD4PG_20240101_v001_eps0100_ckpt_agent1.agent'' 30]])"
  have h: "resume ?args \<or> eval ?args" by simp
  have e: "\<not> (case ?empty of None \<Rightarrow> False | Some node \<Rightarrow> contains_agent_file node)"
    by code_simp
  have f: "case ?full of None \<Rightarrow> False | Some node \<Rightarrow> contains_agent_file node"
    by code_simp
  from get_agent_file_assertion [OF h, of ?empty 2 "[''1'', ''1'']" "''MAD4PG''" "''20240101''"] e
  have 1: "get_agent_file ?args 2 ?empty [''1'', ''1''] =
       Inl (AssertionError ''Could not find any files in: saves'')"
    by simp
  from get_agent_file_assertion [OF h, of ?full 2 "[''1'', ''1'']" "''MAD4PG''" "''20240101''"] f
  have 2: "get_agent_file ?args 2 ?full [''1'', ''1''] \<noteq>
       Inl (AssertionError ''Could not find any files in: saves'')"
    by simp
  from h 1 2 show ?thesis by blast
qed


lemma get_filepath_quit:
  "str_lower save_file \<in> set [''q'', ''quit''] \<Longrightarrow>
   get_filepath files idx (save_file # rest) = Inl (KeyboardInterrupt user_quit_message)"
  by (simp add: get_filepath_def)

lemma select_file_valid:
  assumes "valid_selection files save_file"
  shows "\<exists>k. py_int save_file = Some k \<and> 1 \<le> k \<and> k \<le> int (length files)
             \<and> select_file files save_file = Inr (files ! (length files - nat k))"
proof -
  from assms obtain k where k: "py_int save_file = Some k" "1 \<le> k" "k \<le> int (length files)"
    by (auto simp: valid_selection_def split: option.splits)
  then have "nat (int (length files) - k) = length files - nat k" by linarith
  with k have "select_file files save_file = Inr (files ! (length files - nat k))"
    by (simp add: select_file_def Let_def)
  with k show ?thesis by blast
qed

lemma get_filepath_valid:
  assumes "valid_selection files save_file"
  shows "\<exists>file. get_filepath files idx (save_file # rest) = Inr (file, rest)"
proof -
  from select_file_valid [OF assms] obtain f where "select_file files save_file = Inr f"
    by blast
  moreover from assms have "str_lower save_file \<notin> set [''q'', ''quit'']"
    by (simp add: valid_selection_def)
  ultimately show ?thesis by (simp add: get_filepath_def)
qed

lemma get_filepaths_quit:
  assumes "str_lower save_file \<in> set [''q'', ''quit'']"
    and "\<forall>l\<in>set pre. valid_selection files l"
    and "length pre < length idxs"
  shows "get_filepaths files idxs (pre @ save_file # rest) = Inl (KeyboardInterrupt user_quit_message)"
  using assms(2,3)
proof (induction pre arbitrary: idxs)
  case Nil
  then obtain i idxs' where "idxs = i # idxs'" by (cases idxs) auto
  with assms(1) show ?case by (simp add: get_filepath_quit)
next
  case (Cons l pre)
  from Cons.prems obtain i idxs' where idxs: "idxs = i # idxs'" by (cases idxs) auto
  from Cons.prems have "valid_selection files l" by simp
  from get_filepath_valid [OF this] obtain f where
    "get_filepath files i (l # pre @ save_file # rest) = Inr (f, pre @ save_file # rest)"
    by blast
  moreover from Cons.prems idxs have
    "get_filepaths files idxs' (pre @ save_file # rest) = Inl (KeyboardInterrupt user_quit_message)"
    by (intro Cons.IH) auto
  ultimately show ?case by (simp add: idxs)
qed

text \<open>
  Claim C8. An answer that is \<^verbatim>\<open>q\<close> or \<^verbatim>\<open>quit\<close> in any mix of cases makes
  \<open>get_filepath\<close> raise KeyboardInterrupt with the user-quit message, whatever the
  files and the agent asked for. In resume or eval mode with checkpoint files present,
  when the answers before it were valid selections and there is still an agent to ask
  for, the initialisation of the Saver ends with that KeyboardInterrupt: no Saver
  results, so no file is selected or loaded.
\<close>

theorem quit_aborts_startup:
  assumes quit: "str_lower save_file = ''q'' \<or> str_lower save_file = ''quit''"
    and mode: "resume args \<or> eval args"
    and files: "get_files (save_dir args) tree \<noteq> []"
    and pre: "\<forall>l\<in>set pre. valid_selection (get_files (save_dir args) tree) l"
    and len: "length pre < n_agents"
  shows "get_filepath fs idx (save_file # rest) = Inl (KeyboardInterrupt user_quit_message)
       \<and> get_agent_file args n_agents tree (pre @ save_file # rest) =
           Inl (KeyboardInterrupt user_quit_message)
       \<and> saver_init framework n_agents args timestamp tree (pre @ save_file # rest) =
           Inl (KeyboardInterrupt user_quit_message)"
proof -
  from quit have q: "str_lower save_file \<in> set [''q'', ''quit'']" by auto
  from len have "length pre < length [0..<n_agents]" by simp
  with q pre have
    "get_filepaths (get_files (save_dir args) tree) [0..<n_agents] (pre @ save_file # rest) =
       Inl (KeyboardInterrupt user_quit_message)"
    by (intro get_filepaths_quit)
  with mode files have
    "get_agent_file args n_agents tree (pre @ save_file # rest) =
       Inl (KeyboardInterrupt user_quit_message)"
    by (auto simp: get_agent_file_def Let_def)
  with q show ?thesis
    by (simp add: saver_init_def get_filepath_quit del: set_simps)
qed

text \<open>
  The theorem where the first agent's file is chosen and the prompt for the second agent
  is answered with \<^verbatim>\<open>Quit\<close>.
\<close>

theorem quit_aborts_startup_witness:
  "(str_lower ''Quit'' = ''q'' \<or> str_lower ''Quit'' = ''quit'')
   \<and> valid_selection [''saves/run/b.agent'', ''saves/run/a.agent''] ''1''
   \<and> get_filepath [''saves/run/b.agent'', ''saves/run/a.agent''] 1 [''Quit'', ''2''] =
       Inl (KeyboardInterrupt ''User quit process before loading a file.'')
   \<and> saver_init ''MAD4PG'' 2 \<lparr>resume = True, eval = False, save_dir = ''saves''\<rparr> ''20240101''
        (Some (Dir ''saves'' [Dir ''run'' [File ''a.agent'' 20, File ''b.agent'' 10]]))
        [''1'', ''Quit'', ''2''] =
       Inl (KeyboardInterrupt ''User quit process before loading a file.'')"
proof -
  let ?args = "\<lparr>resume = True, eval = False, save_dir = ''saves''\<rparr>"
  let ?tree = "Some (Dir ''saves'' [Dir ''run'' [File ''a.agent'' 20, File ''b.agent'' 10]])"
  have files: "get_files ''saves'' ?tree = [''saves/run/b.agent'', ''saves/run/a.agent'']"
    by code_simp
  have q: "str_lower ''Quit'' = ''q'' \<or> str_lower ''Quit'' = ''quit''" by code_simp
  have m: "resume ?args \<or> eval ?args" by simp
  have ne: "get_files (save_dir ?args) ?tree \<noteq> []" by (simp add: files)
  have v: "valid_selection [''saves/run/b.agent'', ''saves/run/a.agent''] ''1''" by code_simp
  then have pre: "\<forall>l\<in>set [''1'']. valid_selection (get_files (save_dir ?args) ?tree) l"
    by (simp add: files)
  have len: "length [''1''] < (2::nat)" by simp
  from quit_aborts_startup [OF q m ne pre len,
      of "[''saves/run/b.agent'', ''saves/run/a.agent'']" 1 "[''2'']" "''MAD4PG''" "''20240101''"]
  have "get_filepath [''saves/run/b.agent'', ''saves/run/a.agent''] 1 [''Quit'', ''2''] =
       Inl (KeyboardInterrupt user_quit_message)
   \<and> saver_init ''MAD4PG'' 2 ?args ''20240101'' ?tree [''1'', ''Quit'', ''2''] =
       Inl (KeyboardInterrupt user_quit_message)"
    by simp
  with q v show ?thesis by (simp add: user_quit_message_def)
qed

text \<open>
  A valid selection \<open>k\<close> returns the file at \<^verbatim>\<open>len(files) - k\<close> of the list sorted by
  modification time, the \<open>k\<close>-th from its end. Any other answer that is not the request to
  quit ends in the handler, which raises NameError: the user is not asked again.
\<close>

lemma get_filepath_valid_selection:
  assumes "valid_selection files save_file"
  shows "\<exists>k. py_int save_file = Some k \<and> 1 \<le> k \<and> k \<le> int (length files)
           \<and> get_filepath files idx (save_file # rest) = Inr (files ! (length files - nat k), rest)"
proof -
  from select_file_valid [OF assms] obtain k where
    "py_int save_file = Some k" "1 \<le> k" "k \<le> int (length files)"
    "select_file files save_file = Inr (files ! (length files - nat k))"
    by blast
  moreover from assms have "str_lower save_file \<notin> set [''q'', ''quit'']"
    by (simp add: valid_selection_def)
  ultimately show ?thesis by (simp add: get_filepath_def)
qed

lemma get_filepath_invalid_selection:
  assumes "str_lower save_file \<notin> set [''q'', ''quit'']" and "\<not> valid_selection files save_file"
  shows "get_filepath files idx (save_file # rest) = Inl (NameError ''name '_get_filepath' is not defined'')"
proof -
  from assms have "\<exists>e. select_file files save_file = Inl e"
    by (auto simp: valid_selection_def select_file_def Let_def split: option.splits)
  with assms(1) show ?thesis by (auto simp add: get_filepath_def)
qed

text \<open>
  Claim C9 at concrete answers: with two files listed, the answers \<^verbatim>\<open>7\<close> and
  \<^verbatim>\<open>abc\<close> raise NameError although a valid answer is waiting on standard input, where
  the claim has the user prompted again; the answer \<^verbatim>\<open>1\<close> returns the most recently
  modified file.
\<close>

theorem get_filepath_invalid_not_reprompted:
  "get_filepath [''saves/run/b.agent'', ''saves/run/a.agent''] 0 [''7'', ''1''] =
     Inl (NameError ''name '_get_filepath' is not defined'')
   \<and> get_filepath [''saves/run/b.agent'', ''saves/run/a.agent''] 0 [''abc'', ''1''] =
     Inl (NameError ''name '_get_filepath' is not defined'')
   \<and> get_filepath [''saves/run/b.agent'', ''saves/run/a.agent''] 0 [''1''] =
     Inr (''saves/run/a.agent'', [])"
  by code_simp

section \<open>Properties of the episode loop\<close>


lemma cutoff_False: "\<not> cutoff rs"
  by (simp add: cutoff_def of_bool_def)

text \<open>
  Claim C3. The cutoff condition is false for every rewards vector. So the cutoff
  \<^verbatim>\<open>break\<close> is never taken: when the episode loop has ended without an exception it
  ended on a done flag of the environment, and as long as no time step has a done flag
  the loop is still running.
\<close>

theorem cutoff_never_taken:
  "\<not> cutoff rs \<and>
   (episode_loop str_of steps L = Inr (ex, L') \<longrightarrow>
      (ex = EnvDone \<and> (\<exists>(rs, dones, ma)\<in>set steps. np_any dones)) \<or>
      (ex = Running \<and> \<not> (\<exists>(rs, dones, ma)\<in>set steps. np_any dones)))"
proof (rule conjI)
  show "\<not> cutoff rs" by (rule cutoff_False)
  show "episode_loop str_of steps L = Inr (ex, L') \<longrightarrow>
      (ex = EnvDone \<and> (\<exists>(rs, dones, ma)\<in>set steps. np_any dones)) \<or>
      (ex = Running \<and> \<not> (\<exists>(rs, dones, ma)\<in>set steps. np_any dones))"
  proof (induction steps arbitrary: L)
    case Nil
    show ?case by simp
  next
    case (Cons s steps)
    obtain rs dones ma where s: "s = (rs, dones, ma)" by (cases s)
    show ?case
    proof (cases "log str_of rs ma L")
      case (Inl e)
      with s show ?thesis by simp
    next
      case (Inr L1)
      show ?thesis
      proof (cases "np_any dones")
        case True
        with Inr s show ?thesis by auto
      next
        case False
        with Inr s Cons.IH [of L1] show ?thesis
          by (simp add: cutoff_False)
      qed
    qed
  qed
qed

text \<open>
  The theorem at an episode of two time steps with two agents; the rewards add up to 11
  and 7, far above the intended cutoff, and the loop ends only at the done flag of the
  second step.
\<close>

theorem cutoff_never_taken_witness:
  "episode_loop (\<lambda>x::int. str_nat (nat x))
     [([1, 2], [False, False], \<lparr>t_step = 1, agents = []\<rparr>),
      ([10, 5], [False, True], \<lparr>t_step = 3, agents = []\<rparr>)]
     \<lparr>logger_eval = False, log_every = 2, print_every = 10, agent_count = 2,
        rewards = [0, 0], scores = [], scoresfile = [], lossfiles = []\<rparr> =
   Inr (EnvDone,
     \<lparr>logger_eval = False, log_every = 2, print_every = 10, agent_count = 2,
        rewards = [11, 7], scores = [], scoresfile = [], lossfiles = []\<rparr>)
   \<and> \<not> cutoff [11, 7 :: int]
   \<and> (\<exists>(rs, dones, ma)\<in>set
         [([1, 2 :: int], [False, False], \<lparr>t_step = 1, agents = [] :: (int \<times> int) list\<rparr>),
          ([10, 5], [False, True], \<lparr>t_step = 3, agents = []\<rparr>)]. np_any dones)"
proof -
  let ?steps = "[([1, 2 :: int], [False, False], \<lparr>t_step = 1, agents = [] :: (int \<times> int) list\<rparr>),
          ([10, 5], [False, True], \<lparr>t_step = 3, agents = []\<rparr>)]"
  let ?L = "\<lparr>logger_eval = False, log_every = 2, print_every = 10, agent_count = 2,
        rewards = [0, 0 :: int], scores = [], scoresfile = [], lossfiles = []\<rparr>"
  let ?L' = "\<lparr>logger_eval = False, log_every = 2, print_every = 10, agent_count = 2,
        rewards = [11, 7 :: int], scores = [], scoresfile = [], lossfiles = []\<rparr>"
  have run: "episode_loop (\<lambda>x::int. str_nat (nat x)) ?steps ?L = Inr (EnvDone, ?L')"
    by code_simp
  from cutoff_never_taken [of "[11, 7 :: int]" "\<lambda>x::int. str_nat (nat x)" ?steps ?L EnvDone ?L'] run
  have "\<not> cutoff [11, 7 :: int]" and "\<exists>(rs, dones, ma)\<in>set ?steps. np_any dones"
    by simp_all
  with run show ?thesis by blast
qed

section \<open>Properties of the Logger\<close>

subsection \<open>The score of an episode\<close>


lemma deque_append_last:
  assumes "1 \<le> m"
  shows "deque_append m xs x \<noteq> [] \<and> last (deque_append m xs x) = x"
proof -
  from assms have "length (xs @ [x]) - m \<le> length xs" by simp
  then have "drop (length (xs @ [x]) - m) (xs @ [x]) = drop (length (xs @ [x]) - m) xs @ [x]"
    by simp
  then show ?thesis by (simp add: deque_append_def Let_def)
qed

lemma log_fields:
  assumes "log str_of rs ma L = Inr L'" and "length rs = length (rewards L)"
  shows "rewards L' = map2 (+) (rewards L) rs \<and> scores L' = scores L
       \<and> scoresfile L' = scoresfile L \<and> agent_count L' = agent_count L
       \<and> print_every L' = print_every L \<and> logger_eval L' = logger_eval L"
  using assms
  by (auto simp: log_def np_iadd_def Let_def split: if_splits sum.splits)

lemma foldl_map2_length:
  "\<forall>rs\<in>set rss. length rs = length acc \<Longrightarrow>
   length (foldl (\<lambda>a r. map2 (+) a r) acc rss) = length acc"
  by (induction rss arbitrary: acc) simp_all

lemma foldl_map2_nth:
  "\<forall>rs\<in>set rss. length rs = length acc \<Longrightarrow> i < length acc \<Longrightarrow>
   foldl (\<lambda>a r. map2 (+) a r) acc rss ! i = foldl (+) (acc ! i) (map (\<lambda>rs. rs ! i) rss)"
  by (induction rss arbitrary: acc) simp_all

lemma log_all_fields:
  assumes "log_all str_of steps L = Inr L'"
    and "\<forall>(rs, ma)\<in>set steps. length rs = length (rewards L)"
  shows "rewards L' = foldl (\<lambda>a r. map2 (+) a r) (rewards L) (map fst steps)
       \<and> scores L' = scores L \<and> scoresfile L' = scoresfile L
       \<and> agent_count L' = agent_count L \<and> print_every L' = print_every L
       \<and> logger_eval L' = logger_eval L"
  using assms
proof (induction steps arbitrary: L)
  case Nil
  then show ?case by simp
next
  case (Cons s steps)
  obtain rs ma where s: "s = (rs, ma)" by (cases s)
  from Cons.prems(1) s obtain L1 where
    l1: "log str_of rs ma L = Inr L1" and rest: "log_all str_of steps L1 = Inr L'"
    by (auto split: sum.splits)
  from Cons.prems(2) s have len: "length rs = length (rewards L)" by simp
  note f1 = log_fields [OF l1 len]
  from f1 len have "length (rewards L1) = length (rewards L)" by simp
  with Cons.prems(2) have "\<forall>(rs, ma)\<in>set steps. length rs = length (rewards L1)" by simp
  from Cons.IH [OF rest this] f1 s show ?case by simp
qed

lemma list_max_Max_nth:
  assumes "xs \<noteq> []"
  shows "list_max xs = Max ((\<lambda>i. xs ! i) ` {..<length xs})"
proof -
  have "set xs = (\<lambda>i. xs ! i) ` {..<length xs}"
    by (auto simp: set_conv_nth)
  with assms show ?thesis
    by (cases xs) (simp_all add: Max.set_eq_fold [symmetric] del: set_simps)
qed

text \<open>
  Claim C10. Take a Logger in training mode at the start of an episode (the accumulator
  all zeros, as \<open>reset_rewards\<close> leaves it), with at least one agent and a score deque
  that holds at least one item, and an episode whose rewards vectors have one component
  for each agent. After the calls of \<open>log\<close> for the time steps, the accumulator holds for
  each agent the sum of its rewards over the time steps. Then \<open>step\<close> succeeds and
  appends one line to the scores file, the text of the greatest of these sums, and leaves
  the accumulator all zeros.
\<close>

theorem episode_score:
  fixes L :: "'a::{zero,plus,linorder} logger"
  assumes start: "rewards L = replicate (agent_count L) 0"
    and agents: "0 < agent_count L"
    and train: "\<not> logger_eval L"
    and deque: "1 \<le> print_every L"
    and lens: "\<forall>(rs, ma)\<in>set steps. length rs = agent_count L"
    and logged: "log_all str_of steps L = Inr L1"
  shows "\<exists>L2. step str_of L1 = Inr L2
       \<and> (\<forall>i<agent_count L. rewards L1 ! i = foldl (+) 0 (map (\<lambda>(rs, ma). rs ! i) steps))
       \<and> scoresfile L2 =
           scoresfile L @
           str_of (Max ((\<lambda>i. foldl (+) 0 (map (\<lambda>(rs, ma). rs ! i) steps)) ` {..<agent_count L})) @
           [CHR 0x0A]
       \<and> rewards L2 = replicate (agent_count L) 0"
proof -
  let ?n = "agent_count L"
  let ?total = "\<lambda>i. foldl (+) 0 (map (\<lambda>(rs, ma). rs ! i) steps)"
  from start have len0: "length (rewards L) = ?n" by simp
  with lens have lens': "\<forall>(rs, ma)\<in>set steps. length rs = length (rewards L)" by simp
  note f = log_all_fields [OF logged lens']
  from lens' have all: "\<forall>rs\<in>set (map fst steps). length rs = length (rewards L)" by auto
  from f foldl_map2_length [OF all] len0 have len1: "length (rewards L1) = ?n" by simp
  have nth: "rewards L1 ! i = ?total i" if "i < ?n" for i
  proof -
    from that len0 have i: "i < length (rewards L)" by simp
    from f have "rewards L1 ! i = foldl (\<lambda>a r. map2 (+) a r) (rewards L) (map fst steps) ! i"
      by simp
    also have "\<dots> = foldl (+) (rewards L ! i) (map (\<lambda>rs. rs ! i) (map fst steps))"
      by (rule foldl_map2_nth [OF all i])
    also from that start have "rewards L ! i = 0" by simp
    also have "map (\<lambda>rs. rs ! i) (map fst steps) = map (\<lambda>(rs, ma). rs ! i) steps"
      by (simp add: case_prod_unfold comp_def)
    finally show ?thesis .
  qed
  from len1 agents have ne: "rewards L1 \<noteq> []" by auto
  have "list_max (rewards L1) = Max ((\<lambda>i. rewards L1 ! i) ` {..<length (rewards L1)})"
    by (rule list_max_Max_nth [OF ne])
  also have "\<dots> = Max (?total ` {..<?n})"
    using nth len1 by (intro arg_cong [where f = Max] image_cong) auto
  finally have score: "list_max (rewards L1) = Max (?total ` {..<?n})" .
  from f deque have d: "1 \<le> print_every L1" by simp
  define L2 where "L2 = reset_rewards (L1\<lparr>scores :=
      deque_append (print_every L1) (scores L1) (list_max (rewards L1))\<rparr>)\<lparr>scoresfile :=
      scoresfile L1 @ str_of (list_max (rewards L1)) @ [CHR 0x0A]\<rparr>"
  from ne train f deque_append_last [OF d, of "scores L1" "list_max (rewards L1)"]
  have "step str_of L1 = Inr L2"
    by (simp add: step_def update_score_def Let_def reset_rewards_def latest_score_def
        write_scores_def L2_def)
  moreover have "scoresfile L2 = scoresfile L @ str_of (Max (?total ` {..<?n})) @ [CHR 0x0A]"
    using f score by (simp add: L2_def reset_rewards_def)
  moreover have "rewards L2 = replicate ?n 0"
    using f by (simp add: L2_def reset_rewards_def)
  ultimately show ?thesis using nth by blast
qed

text \<open>
  The theorem at an episode of two time steps with two agents: the sums are 11 and -3,
  the line written is \<^verbatim>\<open>11\<close>.
\<close>

theorem episode_score_witness:
  "log_all (\<lambda>x::int. str_nat (nat x))
     [([1, 2], \<lparr>t_step = 1, agents = []\<rparr>), ([10, - 5], \<lparr>t_step = 3, agents = []\<rparr>)]
     \<lparr>logger_eval = False, log_every = 2, print_every = 10, agent_count = 2,
        rewards = [0, 0], scores = [], scoresfile = [], lossfiles = []\<rparr> =
   Inr \<lparr>logger_eval = False, log_every = 2, print_every = 10, agent_count = 2,
        rewards = [11, - 3], scores = [], scoresfile = [], lossfiles = []\<rparr>
   \<and> (\<exists>L2. step (\<lambda>x::int. str_nat (nat x))
          \<lparr>logger_eval = False, log_every = 2, print_every = 10, agent_count = 2,
             rewards = [11, - 3], scores = [], scoresfile = [], lossfiles = []\<rparr> = Inr L2
        \<and> scoresfile L2 = ''11'' @ [CHR 0x0A]
        \<and> rewards L2 = [0, 0])"
proof -
  let ?str = "\<lambda>x::int. str_nat (nat x)"
  let ?steps = "[([1, 2 :: int], \<lparr>t_step = 1, agents = [] :: (int \<times> int) list\<rparr>),
                 ([10, - 5], \<lparr>t_step = 3, agents = []\<rparr>)]"
  let ?L = "\<lparr>logger_eval = False, log_every = 2, print_every = 10, agent_count = 2,
        rewards = [0, 0 :: int], scores = [], scoresfile = [], lossfiles = []\<rparr>"
  let ?L1 = "\<lparr>logger_eval = False, log_every = 2, print_every = 10, agent_count = 2,
        rewards = [11, - 3 :: int], scores = [], scoresfile = [], lossfiles = []\<rparr>"
  have logged: "log_all ?str ?steps ?L = Inr ?L1" by code_simp
  have start: "rewards ?L = replicate (agent_count ?L) 0" by (simp add: numeral_2_eq_2)
  have agents: "0 < agent_count ?L" by simp
  have train: "\<not> logger_eval ?L" by simp
  have deque: "1 \<le> print_every ?L" by simp
  have lens: "\<forall>(rs, ma)\<in>set ?steps. length rs = agent_count ?L" by simp
  from episode_score [OF start agents train deque lens logged] obtain L2 where
    st: "step ?str ?L1 = Inr L2"
    and sf: "scoresfile L2 = scoresfile ?L @
        ?str (Max ((\<lambda>i. foldl (+) 0 (map (\<lambda>(rs, ma). rs ! i) ?steps)) ` {..<agent_count ?L})) @
        [CHR 0x0A]"
    and zero: "rewards L2 = replicate (agent_count ?L) 0"
    by blast
  have two: "{..<(2::nat)} = {0, 1}" by auto
  have "Max ((\<lambda>i. foldl (+) 0 (map (\<lambda>(rs, ma). rs ! i) ?steps)) ` {..<agent_count ?L}) = (11::int)"
    by (simp add: two)
  moreover have "?str 11 = ''11''" by code_simp
  ultimately have "scoresfile L2 = ''11'' @ [CHR 0x0A]" using sf by simp
  moreover from zero have "rewards L2 = [0, 0]" by (simp add: numeral_2_eq_2)
  ultimately show ?thesis using logged st by blast
qed

text \<open>
  The calls of \<open>log\<close> the episode loop has made when it stands are those for the time
  steps it has used.
\<close>

lemma episode_loop_logs:
  "episode_loop str_of steps L = Inr (ex, L') \<Longrightarrow>
   \<exists>k\<le>length steps.
     log_all str_of (map (\<lambda>(rs, dones, ma). (rs, ma)) (take k steps)) L = Inr L'"
proof (induction steps arbitrary: L)
  case Nil
  then show ?case by simp
next
  case (Cons s steps)
  obtain rs dones ma where s: "s = (rs, dones, ma)" by (cases s)
  from Cons.prems s obtain L1 where l1: "log str_of rs ma L = Inr L1"
    by (auto split: sum.splits)
  show ?case
  proof (cases "np_any dones")
    case True
    with Cons.prems s l1 have "L' = L1" by simp
    with l1 s have "log_all str_of (map (\<lambda>(rs, dones, ma). (rs, ma)) (take 1 (s # steps))) L = Inr L'"
      by simp
    then show ?thesis by (intro exI [of _ 1]) simp
  next
    case False
    with Cons.prems s l1 have "episode_loop str_of steps L1 = Inr (ex, L')"
      by (simp add: cutoff_False)
    from Cons.IH [OF this] obtain k where
      k: "k \<le> length steps"
      and la: "log_all str_of (map (\<lambda>(rs, dones, ma). (rs, ma)) (take k steps)) L1 = Inr L'"
      by blast
    from la l1 s have
      "log_all str_of (map (\<lambda>(rs, dones, ma). (rs, ma)) (take (Suc k) (s # steps))) L = Inr L'"
      by simp
    with k show ?thesis by (intro exI [of _ "Suc k"]) simp
  qed
qed

subsection \<open>Writing the scores and reading them back\<close>

text \<open>
  In training mode \<open>step\<close> records the score of the episode as \<open>write_all_scores\<close>
  records a score.
\<close>

lemma step_writes_score:
  assumes "\<not> logger_eval L" and "rewards L \<noteq> []"
  shows "step str_of L = write_all_scores str_of [list_max (rewards L)] (reset_rewards L)"
  using assms
  by (simp add: step_def update_score_def Let_def reset_rewards_def write_scores_def
      latest_score_def split: sum.splits)


lemma universal_newlines_id: "CHR 0x0D \<notin> set s \<Longrightarrow> universal_newlines s = s"
  by (induction s rule: universal_newlines.induct) auto

lemma is_linebreak_LF: "is_linebreak (CHR 0x0A)"
  by (simp add: is_linebreak_def)

lemma is_linebreak_CR: "is_linebreak (CHR 0x0D)"
  by (simp add: is_linebreak_def)

lemma splitlines_from_line:
  "\<forall>c\<in>set l. \<not> is_linebreak c \<Longrightarrow>
   splitlines_from cur (l @ CHR 0x0A # rest) = (cur @ l) # splitlines_from [] rest"
proof (induction l arbitrary: cur)
  case Nil
  show ?case by (cases rest) (simp_all add: is_linebreak_LF)
next
  case (Cons c l)
  then have c: "\<not> is_linebreak c" and l: "\<forall>c\<in>set l. \<not> is_linebreak c" by simp_all
  from c have "c \<noteq> CHR 0x0D" using is_linebreak_CR by auto
  obtain d cs where dcs: "l @ CHR 0x0A # rest = d # cs" by (cases "l @ CHR 0x0A # rest") auto
  have "splitlines_from cur ((c # l) @ CHR 0x0A # rest) = splitlines_from cur (c # d # cs)"
    by (simp add: dcs)
  also have "\<dots> = splitlines_from (cur @ [c]) (d # cs)"
    using c \<open>c \<noteq> CHR 0x0D\<close> by simp
  also have "\<dots> = splitlines_from (cur @ [c]) (l @ CHR 0x0A # rest)"
    by (simp add: dcs)
  also have "\<dots> = ((cur @ [c]) @ l) # splitlines_from [] rest"
    by (rule Cons.IH [OF l])
  finally show ?case by simp
qed

lemma splitlines_score_lines:
  "\<forall>x\<in>set xs. \<forall>c\<in>set (str_of x). \<not> is_linebreak c \<Longrightarrow>
   splitlines (score_lines str_of xs) = map str_of xs"
proof (induction xs)
  case Nil
  show ?case by (simp add: splitlines_def score_lines_def)
next
  case (Cons x xs)
  then have x: "\<forall>c\<in>set (str_of x). \<not> is_linebreak c" by simp
  from Cons have "splitlines_from [] (score_lines str_of xs) = map str_of xs"
    by (simp add: splitlines_def)
  with splitlines_from_line [OF x, of "[]" "score_lines str_of xs"] show ?case
    by (simp add: splitlines_def score_lines_def)
qed

lemma score_lines_no_CR:
  "\<forall>x\<in>set xs. \<forall>c\<in>set (str_of x). \<not> is_linebreak c \<Longrightarrow> CHR 0x0D \<notin> set (score_lines str_of xs)"
  using is_linebreak_CR by (auto simp: score_lines_def)

lemma parse_all_round_trip:
  "\<forall>x\<in>set xs. float_of (str_of x) = Some x \<Longrightarrow> parse_all float_of (map str_of xs) = Inr xs"
  by (induction xs) simp_all

lemma write_all_scores_file:
  "1 \<le> print_every L \<Longrightarrow>
   \<exists>L'. write_all_scores str_of xs L = Inr L'
       \<and> scoresfile L' = scoresfile L @ score_lines str_of xs"
proof (induction xs arbitrary: L)
  case Nil
  show ?case by (simp add: score_lines_def)
next
  case (Cons x xs)
  define L1 where "L1 = L\<lparr>scores := deque_append (print_every L) (scores L) x,
      scoresfile := scoresfile L @ str_of x @ [CHR 0x0A]\<rparr>"
  from Cons.prems deque_append_last [of "print_every L" "scores L" x]
  have w: "write_scores str_of (L\<lparr>scores := deque_append (print_every L) (scores L) x\<rparr>) = Inr L1"
    by (simp add: write_scores_def latest_score_def L1_def)
  from Cons.prems have "1 \<le> print_every L1" by (simp add: L1_def)
  from Cons.IH [OF this] obtain L' where
    "write_all_scores str_of xs L1 = Inr L'"
    and "scoresfile L' = scoresfile L1 @ score_lines str_of xs"
    by blast
  with w show ?case by (simp add: L1_def score_lines_def)
qed

text \<open>
  Claim C6. Let the text of each score have no line boundary in it and be read back by
  \<open>float_of\<close> as that score, as Python's \<^verbatim>\<open>str\<close> and \<^verbatim>\<open>float\<close> do for its
  floating-point numbers. Starting from an empty scores file, with a score deque that
  holds at least one item, writing the scores one by one succeeds, and reading the file
  back as \<^verbatim>\<open>plot_logs\<close> does yields the same scores in the same order.
\<close>

theorem scores_round_trip:
  assumes parse: "\<forall>x\<in>set xs. float_of (str_of x) = Some x"
    and plain: "\<forall>x\<in>set xs. \<forall>c\<in>set (str_of x). \<not> is_linebreak c"
    and deque: "1 \<le> print_every L"
    and empty: "scoresfile L = []"
  shows "\<exists>L'. write_all_scores str_of xs L = Inr L'
             \<and> read_scores float_of (scoresfile L') = Inr xs"
proof -
  from write_all_scores_file [OF deque, of str_of xs] empty obtain L' where
    w: "write_all_scores str_of xs L = Inr L'" and f: "scoresfile L' = score_lines str_of xs"
    by auto
  have "read_scores float_of (scoresfile L') = parse_all float_of (splitlines (score_lines str_of xs))"
    by (simp add: read_scores_def f universal_newlines_id [OF score_lines_no_CR [OF plain]])
  also have "\<dots> = parse_all float_of (map str_of xs)"
    by (simp only: splitlines_score_lines [OF plain])
  also have "\<dots> = Inr xs"
    by (rule parse_all_round_trip [OF parse])
  finally show ?thesis using w by blast
qed

text \<open>
  The theorem at three scores that are natural numbers, written in decimal and read back
  by a parser of decimal digits.
\<close>

theorem scores_round_trip_witness:
  "\<exists>L'. write_all_scores str_nat [3, 12, 7]
          \<lparr>logger_eval = False, log_every = 15, print_every = 10, agent_count = 2,
             rewards = [0, 0], scores = [], scoresfile = [], lossfiles = []\<rparr> = Inr L'
      \<and> read_scores (\<lambda>s. if s \<noteq> [] \<and> list_all is_digit s then Some (int_of_digits s) else None)
            (scoresfile L') = Inr [3, 12, 7]"
proof -
  let ?float = "\<lambda>s. if s \<noteq> [] \<and> list_all is_digit s then Some (int_of_digits s) else None"
  let ?L = "\<lparr>logger_eval = False, log_every = 15, print_every = 10, agent_count = 2,
             rewards = [0, 0 :: nat], scores = [], scoresfile = [], lossfiles = []\<rparr>"
  have parse: "\<forall>x\<in>set [3, 12, 7]. ?float (str_nat x) = Some x" by code_simp
  have plain: "\<forall>x\<in>set [3, 12, 7 :: nat]. \<forall>c\<in>set (str_nat x). \<not> is_linebreak c" by code_simp
  have deque: "1 \<le> print_every ?L" by simp
  have empty: "scoresfile ?L = []" by simp
  from scores_round_trip [OF parse plain deque empty] show ?thesis .
qed

section \<open>Properties of Logger._moving_avg\<close>


lemma np_pad_mean_length:
  "data \<noteq> [] \<Longrightarrow> \<exists>padded. np_pad_mean data w sl = Inr padded \<and> length padded = length data + 2 * w"
  by (simp add: np_pad_mean_def Let_def)

lemma np_convolve_full_length: "length (np_convolve_full a v) = length a + length v - 1"
  by (simp add: np_convolve_full_def)

lemma moving_avg_unfold:
  assumes "data \<noteq> []" and "1 \<le> w"
  shows "\<exists>padded. np_pad_mean data w 10 = Inr padded \<and> length padded = length data + 2 * w
       \<and> moving_avg data w =
           Inr (take (length data)
                 (drop (w + (w - 1) div 2) (np_convolve_full padded (replicate w (1 / real w)))))"
proof -
  from np_pad_mean_length [OF assms(1), of w 10] obtain padded where
    p: "np_pad_mean data w 10 = Inr padded" and len: "length padded = length data + 2 * w"
    by blast
  let ?window = "replicate w (1 / real w)"
  let ?full = "np_convolve_full padded ?window"
  from assms len have ne: "padded \<noteq> []" "?window \<noteq> []" by auto
  from len assms have mx: "max (length padded) w = length padded"
    and mn: "min (length padded) w = w" by simp_all
  from ne have conv: "np_convolve_same padded ?window =
      Inr (take (length padded) (drop ((w - 1) div 2) ?full))"
    by (simp add: np_convolve_same_def mx mn del: replicate_empty)
  have lf: "length ?full = length data + 3 * w - 1"
    using len by (simp add: np_convolve_full_length)
  have "(w - 1) div 2 + length padded \<le> length ?full"
  proof -
    have "(w - 1) div 2 \<le> w - 1" by simp
    with len lf assms show ?thesis by simp
  qed
  then have l1: "length (take (length padded) (drop ((w - 1) div 2) ?full)) = length padded"
    by simp
  define conv where "conv = take (length padded) (drop ((w - 1) div 2) ?full)"
  from l1 len have lc: "length conv - w - w = length data" by (simp add: conv_def)
  have "slice_both w conv = take (length data) (drop w conv)"
    by (simp only: slice_both_def lc)
  also have "drop w conv = take (length padded - w) (drop (w + (w - 1) div 2) ?full)"
    by (simp add: conv_def drop_take)
  also have "take (length data) \<dots> = take (length data) (drop (w + (w - 1) div 2) ?full)"
    using len by (simp add: min_def)
  finally have "slice_both w (take (length padded) (drop ((w - 1) div 2) ?full)) =
        take (length data) (drop (w + (w - 1) div 2) ?full)"
    by (simp only: conv_def)
  with p conv len show ?thesis
    by (simp add: moving_avg_def Let_def)
qed

lemma conv_at_inside:
  assumes "length v - 1 \<le> j" and "j < length a"
  shows "conv_at a v j = sum_list (map (\<lambda>i. a ! (j - i) * v ! i) [0..<length v])"
proof -
  have "(if i \<le> j \<and> j - i < length a then a ! (j - i) * v ! i else 0) = a ! (j - i) * v ! i"
    if "i \<in> set [0..<length v]" for i
  proof -
    from that assms have "i \<le> j" and "j - i < length a" by auto
    then show ?thesis by simp
  qed
  then show ?thesis
    unfolding conv_at_def by (intro arg_cong [where f = sum_list] map_cong refl)
qed

lemma conv_at_uniform:
  assumes "w - 1 \<le> j" and "j < length a"
  shows "conv_at a (replicate w (1 / real w)) j = sum_list (map (\<lambda>i. a ! (j - i)) [0..<w]) / real w"
proof -
  from assms have "conv_at a (replicate w (1 / real w)) j =
      sum_list (map (\<lambda>i. a ! (j - i) * replicate w (1 / real w) ! i) [0..<w])"
    by (simp add: conv_at_inside)
  also have "\<dots> = sum_list (map (\<lambda>i. a ! (j - i) * (1 / real w)) [0..<w])"
    by (intro arg_cong [where f = sum_list] map_cong refl) simp
  also have "\<dots> = sum_list (map (\<lambda>i. a ! (j - i)) [0..<w]) * (1 / real w)"
    by (rule sum_list_mult_const)
  finally show ?thesis by simp
qed

lemma moving_avg_curve:
  assumes "data \<noteq> []" and "1 \<le> w"
  defines "padded \<equiv>
      replicate w (np_mean (take (min 10 (length data)) data)) @ data @
      replicate w (np_mean (drop (length data - min 10 (length data)) data))"
  shows "\<exists>curve. moving_avg data w = Inr curve \<and> length curve = length data
       \<and> (\<forall>k<length data.
             curve ! k = sum_list (map (\<lambda>i. padded ! (k + w + (w - 1) div 2 - i)) [0..<w]) / real w)"
proof -
  let ?window = "replicate w (1 / real w)"
  let ?off = "w + (w - 1) div 2"
  from assms(1) have p: "np_pad_mean data w 10 = Inr padded"
    by (simp add: np_pad_mean_def Let_def padded_def)
  have len: "length padded = length data + 2 * w" by (simp add: padded_def)
  from moving_avg_unfold [OF assms(1,2)] p have
    ma: "moving_avg data w = Inr (take (length data) (drop ?off (np_convolve_full padded ?window)))"
    by auto
  have half: "(w - 1) div 2 \<le> w - 1" by simp
  with len assms(2) have room: "?off + length data \<le> length (np_convolve_full padded ?window)"
    by (simp add: np_convolve_full_length)
  then have l: "length (take (length data) (drop ?off (np_convolve_full padded ?window))) = length data"
    by simp
  have nth: "take (length data) (drop ?off (np_convolve_full padded ?window)) ! k =
      sum_list (map (\<lambda>i. padded ! (k + w + (w - 1) div 2 - i)) [0..<w]) / real w"
    if "k < length data" for k
  proof -
    from that room have in_full: "?off + k < length padded + w - 1"
      by (simp add: np_convolve_full_length)
    from that have "take (length data) (drop ?off (np_convolve_full padded ?window)) ! k =
        np_convolve_full padded ?window ! (?off + k)"
      using room by simp
    also have "\<dots> = conv_at padded ?window (?off + k)"
      using in_full by (simp add: np_convolve_full_def)
    also have "\<dots> = sum_list (map (\<lambda>i. padded ! (?off + k - i)) [0..<w]) / real w"
    proof (rule conv_at_uniform)
      show "w - 1 \<le> ?off + k" by simp
      from that half len assms(2) show "?off + k < length padded" by simp
    qed
    also have "?off + k = k + w + (w - 1) div 2" by simp
    finally show ?thesis .
  qed
  from ma l nth show ?thesis by simp
qed

lemma np_mean_replicate: "1 \<le> m \<Longrightarrow> np_mean (replicate m c) = c"
  by (simp add: np_mean_def sum_list_replicate)

text \<open>
  Claim C5. For non-empty data and a window of at least 1, \<open>moving_avg\<close> returns a
  curve as long as the data; each of its points is the mean of \<open>w\<close> consecutive
  samples of the padded data, which are the data with \<open>w\<close> copies of the mean of the
  first (at most 10) samples before them and \<open>w\<close> copies of the mean of the last (at most
  10) samples after them.
\<close>

theorem moving_avg_length:
  assumes "data \<noteq> []" and "1 \<le> w"
  shows "\<exists>curve. moving_avg data w = Inr curve \<and> length curve = length data
       \<and> (\<forall>k<length data.
             curve ! k =
             sum_list (map (\<lambda>i.
                 (replicate w (np_mean (take (min 10 (length data)) data)) @ data @
                  replicate w (np_mean (drop (length data - min 10 (length data)) data)))
                 ! (k + w + (w - 1) div 2 - i)) [0..<w]) / real w)"
  using assms by (rule moving_avg_curve)

text \<open>The theorem at six samples and a window of 2.\<close>

theorem moving_avg_length_witness:
  "[1, 2, 3, 4, 5, 6 :: real] \<noteq> [] \<and> (1::nat) \<le> 2
   \<and> (\<exists>curve. moving_avg [1, 2, 3, 4, 5, 6] 2 = Inr curve \<and> length curve = 6)"
proof -
  have ne: "[1, 2, 3, 4, 5, 6 :: real] \<noteq> []" by simp
  have w: "(1::nat) \<le> 2" by simp
  from moving_avg_length [OF ne w] obtain curve where
    "moving_avg [1, 2, 3, 4, 5, 6] 2 = Inr curve" and "length curve = length [1, 2, 3, 4, 5, 6 :: real]"
    by blast
  then have "\<exists>curve. moving_avg [1, 2, 3, 4, 5, 6] 2 = Inr curve \<and> length curve = 6"
    by simp
  with ne w show ?thesis by blast
qed

text \<open>
  In exact arithmetic a constant sequence comes back unchanged. The floating-point result
  of the source need not be the constant itself: six times the double nearest to 1/6,
  added one after the other, give 0.9999999999999999 and not 1.
\<close>

lemma moving_avg_constant_exact:
  assumes "1 \<le> n" and "1 \<le> w"
  shows "moving_avg (replicate n c) w = Inr (replicate n c)"
proof -
  from assms(1) have ne: "replicate n c \<noteq> []" by auto
  let ?padded = "replicate w (np_mean (take (min 10 (length (replicate n c))) (replicate n c))) @
      replicate n c @
      replicate w (np_mean (drop (length (replicate n c) - min 10 (length (replicate n c)))
         (replicate n c)))"
  from assms(1) have m: "1 \<le> min 10 n" by simp
  have "take (min 10 n) (replicate n c) = replicate (min 10 n) c" by simp
  moreover have "drop (n - min 10 n) (replicate n c) = replicate (min 10 n) c"
    by (simp add: min_def)
  ultimately have padded: "?padded = replicate (w + n + w) c"
    using np_mean_replicate [OF m, of c] by (simp add: replicate_add)
  from moving_avg_curve [OF ne assms(2)] obtain curve where
    ma: "moving_avg (replicate n c) w = Inr curve" and l: "length curve = n"
    and nth: "\<forall>k<n. curve ! k =
        sum_list (map (\<lambda>i. ?padded ! (k + w + (w - 1) div 2 - i)) [0..<w]) / real w"
    by auto
  have "curve ! k = c" if "k < n" for k
  proof -
    have inb: "k + w + (w - 1) div 2 - i < w + n + w" for i
    proof -
      have "(w - 1) div 2 \<le> w - 1" by simp
      with that assms(2) show ?thesis by simp
    qed
    from nth that have "curve ! k =
        sum_list (map (\<lambda>i. replicate (w + n + w) c ! (k + w + (w - 1) div 2 - i)) [0..<w]) / real w"
      by (simp only: padded)
    also have "map (\<lambda>i. replicate (w + n + w) c ! (k + w + (w - 1) div 2 - i)) [0..<w] =
        map (\<lambda>i. c) [0..<w]"
      using inb by (intro map_cong refl) simp
    also have "sum_list (map (\<lambda>i. c) [0..<w]) = real w * c"
      by (simp add: sum_list_triv)
    finally show ?thesis using assms(2) by simp
  qed
  with l have "curve = replicate n c"
    by (simp add: list_eq_iff_nth_eq)
  with ma show ?thesis by simp
qed

end
